theory Spec2Isabelle
  imports Complex_Main "HOL-Library.Word" "HOL-Library.Log_Nat"
begin

unbundle bit_operations_syntax

section \<open>Audio conversion: resampling and stereo/16-bit normalisation\<close>

text \<open>
  A shallow embedding of package \<open>convert\<close>: the table-driven cosine \<open>fastCos01\<close>, the
  resampler \<open>Resampling\<close> (block cache \<open>src\<close>, windowed-sinc interpolator \<open>at\<close>, and the
  stream methods \<open>Length\<close>, \<open>Read\<close>, \<open>Seek\<close>) and the normaliser \<open>Stereo16\<close>. Line numbers
  are those of the package's source file.

  Conventions of the embedding:
  \<^item> \<open>int64\<close> and \<open>int\<close> (64 bits wide) values are HOL integers; where the Go arithmetic
    can leave the 64-bit range, in \<open>Read\<close> and \<open>Seek\<close>, the wrap-around is written out with
    \<open>wrap64\<close>; Go's \<open>/\<close> and \<open>%\<close> on integers truncate towards zero (\<open>quot\<close>, \<open>rem\<close>);
  \<^item> a finite \<open>float64\<close> is modelled by the real number it denotes; the non-finite
    values, which only a division by zero produces in this package, are \<open>None\<close> of
    \<open>real option\<close>. The rounding of an operation is written out, with \<open>float64\<close>, where
    its result is the phase handed to the cosine table or is compared with a threshold, in
    \<open>weight\<close>, \<open>sinc01\<close> and \<open>fastSin01\<close>: there it decides which table entry is read.
    Elsewhere it is not modelled, and the properties that depend on a truncated value carry
    bounds that keep them true of the rounded one;
  \<^item> bytes and 16-bit samples are words;
  \<^item> an error return and a panic are values of type \<open>error\<close>; a function that may fail
    returns \<open>error + 'a\<close>;
  \<^item> a loop that need not end makes its function return an \<open>option\<close>, \<open>None\<close> standing
    for "does not return".
\<close>

subsection \<open>Integers and floats\<close>

type_synonym byte = "8 word"

datatype error = EOF | IOError string | Panic string

definition quot :: "int \<Rightarrow> int \<Rightarrow> int" where
  "quot a b = sgn a * sgn b * (\<bar>a\<bar> div \<bar>b\<bar>)"

definition rem :: "int \<Rightarrow> int \<Rightarrow> int" where
  "rem a b = sgn a * (\<bar>a\<bar> mod \<bar>b\<bar>)"

definition wrap64 :: "int \<Rightarrow> int" where
  "wrap64 x = (x + 2 ^ 63) mod 2 ^ 64 - 2 ^ 63"

definition trunc :: "real \<Rightarrow> int" where
  "trunc x = (if 0 \<le> x then \<lfloor>x\<rfloor> else \<lceil>x\<rceil>)"

text \<open>
  Float division: a zero divisor gives an infinity or a NaN in Go (no panic), and HOL's
  \<open>x / 0 = 0\<close> must not stand in for it.
\<close>

definition float_div :: "real \<Rightarrow> real \<Rightarrow> real option" where
  "float_div x y = (if y = 0 then None else Some (x / y))"

text \<open>
  The conversions \<open>int64(f)\<close> and \<open>int(f)\<close> of a float: truncation towards zero when the
  result is representable. Otherwise (too large, infinite, NaN) Go leaves the value to the
  implementation; the value taken here is the one 64-bit x86 produces, the least
  \<open>int64\<close>.
\<close>

definition int64_indefinite :: int where
  "int64_indefinite = - (2 ^ 63)"

definition int64_of_float64 :: "real option \<Rightarrow> int" where
  "int64_of_float64 f =
     (case f of
        None \<Rightarrow> int64_indefinite
      | Some x \<Rightarrow> if - (2 ^ 63) \<le> trunc x \<and> trunc x < 2 ^ 63 then trunc x else int64_indefinite)"

text \<open>
  Rounding to \<open>float64\<close>: the nearest number with a significand of 53 bits, a tie going
  to the even significand; below \<open>2^-1022\<close> the spacing stays \<open>2^-1074\<close>. \<open>binade x\<close> is
  the exponent \<open>e\<close> of \<open>x \<noteq> 0\<close>, with \<open>2^e \<le> \<bar>x\<bar> < 2^(e+1)\<close>. (No operation rounded below
  can overflow: each has a result no larger than its operands.)
\<close>

definition binade :: "real \<Rightarrow> int" where
  "binade x =
     (if 1 \<le> \<bar>x\<bar> then bitlen \<lfloor>\<bar>x\<bar>\<rfloor> - 1
      else - bitlen (\<lceil>1 / \<bar>x\<bar>\<rceil> - 1))"

definition round_even :: "real \<Rightarrow> int" where
  "round_even y =
     (let f = \<lfloor>y\<rfloor>
      in if y - real_of_int f < 1 / 2 then f
         else if 1 / 2 < y - real_of_int f then f + 1
         else if even f then f else f + 1)"

definition float64 :: "real \<Rightarrow> real" where
  "float64 x =
     (if x = 0 then 0
      else let u = 2 powi (max (binade x) (- 1022) - 52)
           in real_of_int (round_even (x / u)) * u)"

subsection \<open>The cosine table and \<open>fastCos01\<close>\<close>

definition cosTable_len :: int where
  "cosTable_len = 65536"

text \<open>\<open>cosTable[i]\<close>, as \<open>init\<close> fills it; an index outside the array panics.\<close>

definition cosTable :: "int \<Rightarrow> error + real" where
  "cosTable i =
     (if 0 \<le> i \<and> i < cosTable_len
      then Inr (cos (real_of_int i * pi / 2 / real_of_int cosTable_len))
      else Inl (Panic ''index out of range''))"

definition fastCos01 :: "real \<Rightarrow> error + real" where
  "fastCos01 x0 =
     (let x = (if x0 < 0 then - x0 else x0);
          i = int64_of_float64 (Some (4 * real_of_int cosTable_len * x));
          i = (if 4 * cosTable_len < i then rem i (4 * cosTable_len) else i);
          (i, sign) =
            (if i < cosTable_len then (i, 1)
             else if i < cosTable_len * 2 then (cosTable_len * 2 - i, - 1)
             else if i < cosTable_len * 3 then (i - cosTable_len * 2, - 1)
             else (cosTable_len * 4 - i, 1))
      in if i = cosTable_len then Inr 0
         else (case cosTable i of
                 Inl e \<Rightarrow> Inl e
               | Inr c \<Rightarrow> Inr (real_of_int sign * c)))"

text \<open>
  \<open>fastCos01(x - 0.25)\<close>: the difference is rounded before \<open>fastCos01\<close> truncates it to a
  table index.
\<close>

definition fastSin01 :: "real \<Rightarrow> error + real" where
  "fastSin01 x = fastCos01 (float64 (x - 0.25))"

text \<open>The threshold \<open>1e-8\<close> is the \<open>float64\<close> nearest to \<open>10^-8\<close>.\<close>

definition sinc01 :: "real \<Rightarrow> error + real" where
  "sinc01 x =
     (if \<bar>x\<bar> < float64 (1 / 10 ^ 8) then Inr 1
      else (case fastSin01 x of
              Inl e \<Rightarrow> Inl e
            | Inr s \<Rightarrow> Inr (s / (x * 2 * pi))))"

subsection \<open>The upstream stream\<close>

text \<open>
  \<open>ReadSeekCloser\<close> is an interface: a stream is a state of some type \<open>'s\<close> with its
  three methods. \<open>Read n s\<close> is a call with a buffer of length \<open>n\<close>: it returns the bytes it
  stored (their number is Go's \<open>n\<close>) and the error; \<open>Seek offset whence s\<close> returns the new
  position and the error.
\<close>

record 's ReadSeekCloser =
  Read :: "nat \<Rightarrow> 's \<Rightarrow> (byte list \<times> error option) \<times> 's"
  Seek :: "int \<Rightarrow> int \<Rightarrow> 's \<Rightarrow> (int \<times> error option) \<times> 's"
  Close :: "'s \<Rightarrow> error option \<times> 's"

definition SeekStart :: int where "SeekStart = 0"
definition SeekCurrent :: int where "SeekCurrent = 1"
definition SeekEnd :: int where "SeekEnd = 2"

subsection \<open>\<open>Resampling\<close>\<close>

text \<open>
  The fields \<open>size\<close>, \<open>from\<close> and \<open>to\<close> carry a prime, their names being taken in
  Isabelle. \<open>source\<close> holds the state of the upstream stream; its methods are the
  argument \<open>S\<close> of the functions below.
\<close>

record 's Resampling =
  source :: 's
  size' :: int
  from' :: int
  to' :: int
  pos :: int
  srcBlock :: int
  srcBufL :: "int \<rightharpoonup> real list"
  srcBufR :: "int \<rightharpoonup> real list"
  lruSrcBlocks :: "int list"

definition NewResampling :: "'s \<Rightarrow> int \<Rightarrow> int \<Rightarrow> int \<Rightarrow> 's Resampling" where
  "NewResampling st sz f t =
     \<lparr>source = st, size' = sz, from' = f, to' = t, pos = 0, srcBlock = - 1,
      srcBufL = Map.empty, srcBufR = Map.empty, lruSrcBlocks = []\<rparr>"

definition Length :: "'s Resampling \<Rightarrow> int" where
  "Length r =
     (let s = int64_of_float64
                (float_div (real_of_int (size' r) * real_of_int (to' r)) (real_of_int (from' r)))
      in quot s 4 * 4)"

subsection \<open>The block cache: \<open>src\<close>\<close>

definition resamplingBufferSize :: int where
  "resamplingBufferSize = 4096"

text \<open>
  The read loop of \<open>src\<close> (lines 101 to 111). \<open>buf\<close> is \<open>buf[:c]\<close>, the bytes read so far,
  and \<open>len\<close> is \<open>len(buf)\<close>. A source that keeps returning no byte and no error keeps the
  loop running: the function is partial.
\<close>

partial_function (option) readBlock ::
  "'s ReadSeekCloser \<Rightarrow> nat \<Rightarrow> byte list \<Rightarrow> 's \<Rightarrow> ((error + byte list) \<times> 's) option" where
  "readBlock S len buf s =
     (if length buf < len then
        (case Read S (len - length buf) s of
           ((d, err), s') \<Rightarrow>
             (case err of
                Some e \<Rightarrow> if e = EOF then Some (Inr (buf @ d), s') else Some (Inl e, s')
              | None \<Rightarrow> readBlock S len (buf @ d) s'))
      else Some (Inr buf, s))"

text \<open>One decoded sample: \<open>float64(int16(lo) | int16(hi)<<8) / (1<<15 - 1)\<close>.\<close>

definition int16le :: "byte \<Rightarrow> byte \<Rightarrow> 16 word" where
  "int16le lo hi = (ucast lo :: 16 word) OR push_bit 8 (ucast hi :: 16 word)"

definition sample16 :: "byte \<Rightarrow> byte \<Rightarrow> real" where
  "sample16 lo hi = real_of_int (sint (int16le lo hi)) / (2 ^ 15 - 1)"

text \<open>The decoding loop of \<open>src\<close> (lines 115 to 118), from frame \<open>i\<close> on.\<close>

function decode :: "nat \<Rightarrow> byte list \<Rightarrow> real list \<Rightarrow> real list \<Rightarrow> real list \<times> real list" where
  "decode i buf sl sr =
     (if i < length buf div 4 then
        decode (i + 1) buf
          (sl[i := sample16 (buf ! (4 * i)) (buf ! (4 * i + 1))])
          (sr[i := sample16 (buf ! (4 * i + 2)) (buf ! (4 * i + 3))])
      else (sl, sr))"
  by pat_completeness auto
termination
  by (relation "measure (\<lambda>(i, buf, sl, sr). length buf div 4 - i)") auto

text \<open>The index of the first occurrence of \<open>p\<close> (lines 132 to 138); \<open>- 1\<close> when there is none.\<close>

fun lruIndex :: "int \<Rightarrow> int list \<Rightarrow> int \<Rightarrow> int" where
  "lruIndex p [] i = - 1"
| "lruIndex p (q # qs) i = (if q = p then i else lruIndex p qs (i + 1))"

text \<open>\<open>s[ii]\<close> for a cached block \<open>s\<close>; a missing key gives the nil slice, whose index panics.\<close>

definition blockAt :: "(int \<rightharpoonup> real list) \<Rightarrow> int \<Rightarrow> int \<Rightarrow> error + real" where
  "blockAt m k ii =
     (case m k of
        None \<Rightarrow> Inl (Panic ''index out of range'')
      | Some xs \<Rightarrow>
          if 0 \<le> ii \<and> ii < int (length xs) then Inr (xs ! nat ii)
          else Inl (Panic ''index out of range''))"

text \<open>Lines 145 and 146 of \<open>src\<close>.\<close>

definition srcReturn :: "int \<Rightarrow> 's Resampling \<Rightarrow> (error + real \<times> real) \<times> 's Resampling" where
  "srcReturn i r =
     (let ii = rem i resamplingBufferSize
      in case blockAt (srcBufL r) (srcBlock r) ii of
           Inl e \<Rightarrow> (Inl e, r)
         | Inr l \<Rightarrow>
             (case blockAt (srcBufR r) (srcBlock r) ii of
                Inl e \<Rightarrow> (Inl e, r)
              | Inr rr \<Rightarrow> (Inr (l, rr), r)))"

text \<open>
  Lines 112 to 129 of \<open>src\<close>: the block read is decoded and entered in the cache. \<open>buf[:c]\<close>
  panics when the source claims more bytes than the buffer has.
\<close>

definition srcStore :: "int \<Rightarrow> byte list \<Rightarrow> 's Resampling \<Rightarrow> error + 's Resampling" where
  "srcStore nextPos buf r =
     (if nat (resamplingBufferSize * 4) < length buf then Inl (Panic ''slice bounds out of range'')
      else
        (case decode 0 buf (replicate (nat resamplingBufferSize) 0)
                (replicate (nat resamplingBufferSize) 0) of
           (sl, sr) \<Rightarrow>
             let r = r\<lparr>srcBlock := nextPos\<rparr>;
                 r = r\<lparr>srcBufL := (srcBufL r)(srcBlock r \<mapsto> sl)\<rparr>;
                 r = r\<lparr>srcBufR := (srcBufR r)(srcBlock r \<mapsto> sr)\<rparr>;
                 r = (if 4 \<le> length (lruSrcBlocks r) then
                        let p = hd (lruSrcBlocks r)
                        in r\<lparr>srcBufL := (srcBufL r)(p := None),
                             srcBufR := (srcBufR r)(p := None),
                             lruSrcBlocks := tl (lruSrcBlocks r)\<rparr>
                      else r)
             in Inr (r\<lparr>lruSrcBlocks := lruSrcBlocks r @ [srcBlock r]\<rparr>)))"

text \<open>Lines 131 to 143 of \<open>src\<close>: a cached block moves to the end of the list.\<close>

definition srcTouch :: "int \<Rightarrow> 's Resampling \<Rightarrow> error + 's Resampling" where
  "srcTouch nextPos r =
     (let r = r\<lparr>srcBlock := nextPos\<rparr>;
          idx = lruIndex (srcBlock r) (lruSrcBlocks r) 0
      in if idx = - 1 then Inl (Panic ''not reach'')
         else
           let r = r\<lparr>lruSrcBlocks :=
                      take (nat idx) (lruSrcBlocks r) @ drop (nat (idx + 1)) (lruSrcBlocks r)\<rparr>
           in Inr (r\<lparr>lruSrcBlocks := lruSrcBlocks r @ [srcBlock r]\<rparr>))"

definition src ::
  "'s ReadSeekCloser \<Rightarrow> int \<Rightarrow> 's Resampling \<Rightarrow> ((error + real \<times> real) \<times> 's Resampling) option" where
  "src S i r =
     (if i < 0 then Some (Inr (0, 0), r)
      else if quot (size' r) 4 \<le> i then Some (Inr (0, 0), r)
      else
        let nextPos = quot i resamplingBufferSize
        in if srcBufL r nextPos = None then
             (case (if srcBlock r + 1 \<noteq> nextPos
                    then Seek S (nextPos * resamplingBufferSize * 4) SeekStart (source r)
                    else ((0, None), source r)) of
                ((_, Some e), s') \<Rightarrow> Some (Inl e, r\<lparr>source := s'\<rparr>)
              | ((_, None), s') \<Rightarrow>
                  (case readBlock S (nat (resamplingBufferSize * 4)) [] s' of
                     None \<Rightarrow> None
                   | Some (Inl e, s'') \<Rightarrow> Some (Inl e, r\<lparr>source := s''\<rparr>)
                   | Some (Inr buf, s'') \<Rightarrow>
                       (case srcStore nextPos buf (r\<lparr>source := s''\<rparr>) of
                          Inl e \<Rightarrow> Some (Inl e, r\<lparr>source := s''\<rparr>)
                        | Inr r' \<Rightarrow> Some (srcReturn i r'))))
           else
             (case srcTouch nextPos r of
                Inl e \<Rightarrow> Some (Inl e, r\<lparr>srcBlock := nextPos\<rparr>)
              | Inr r' \<Rightarrow> Some (srcReturn i r')))"

subsection \<open>The interpolator: \<open>at\<close>\<close>

definition windowSize :: real where
  "windowSize = 8"

text \<open>
  The weight \<open>s\<close> that the loop body of \<open>at\<close> gives the source frame at offset
  \<open>d = tInSrc - n\<close> (lines 171 and 172). The quotients \<open>d/(windowSize*2+1)\<close> and \<open>d/2\<close>
  are rounded to \<open>float64\<close> before the table is indexed; \<open>windowSize*2+1\<close> is 17, exactly.
\<close>

definition weight :: "real \<Rightarrow> error + real" where
  "weight d =
     (case fastCos01 (float64 (d / (windowSize * 2 + 1))) of
        Inl e \<Rightarrow> Inl e
      | Inr c \<Rightarrow>
          let w = 0.5 + 0.5 * c
          in (case sinc01 (float64 (d / 2)) of
                Inl e \<Rightarrow> Inl e
              | Inr sc \<Rightarrow> Inr (sc * w)))"

text \<open>
  The bounds \<open>startN\<close> and \<open>endN\<close> of the loop of \<open>at\<close> (lines 151 to 162), with
  \<open>tInSrc\<close>.
\<close>

definition window :: "'s Resampling \<Rightarrow> int \<Rightarrow> real option \<times> int \<times> int" where
  "window r t =
     (let tInSrc = float_div (real_of_int t * real_of_int (from' r)) (real_of_int (to' r));
          startN = int64_of_float64 (map_option (\<lambda>v. v - windowSize) tInSrc);
          startN = (if startN < 0 then 0 else startN);
          startN = (if quot (size' r) 4 \<le> startN then quot (size' r) 4 - 1 else startN);
          endN = int64_of_float64 (map_option (\<lambda>v. v + windowSize) tInSrc);
          endN = (if quot (size' r) 4 \<le> endN then quot (size' r) 4 - 1 else endN)
      in (tInSrc, startN, endN))"

text \<open>
  The loop of \<open>at\<close> (lines 165 to 175) from \<open>n\<close> on. \<open>n \<le> endN < r.size/4\<close>, so \<open>n++\<close>
  stays in range. A non-finite \<open>tInSrc\<close> makes \<open>fastCos01\<close> index the table at the
  indefinite integer.
\<close>

function at_loop ::
  "'s ReadSeekCloser \<Rightarrow> real option \<Rightarrow> int \<Rightarrow> int \<Rightarrow> real \<Rightarrow> real \<Rightarrow> 's Resampling \<Rightarrow>
     ((error + real \<times> real) \<times> 's Resampling) option" where
  "at_loop S tInSrc n endN lv rv r =
     (if n \<le> endN then
        (case src S n r of
           None \<Rightarrow> None
         | Some (Inl e, r') \<Rightarrow> Some (Inl e, r')
         | Some (Inr (srcL, srcR), r') \<Rightarrow>
             (case tInSrc of
                None \<Rightarrow> Some (Inl (Panic ''index out of range''), r')
              | Some ts \<Rightarrow>
                  (case weight (ts - real_of_int n) of
                     Inl e \<Rightarrow> Some (Inl e, r')
                   | Inr s \<Rightarrow> at_loop S tInSrc (n + 1) endN (lv + srcL * s) (rv + srcR * s) r')))
      else Some (Inr (lv, rv), r))"
  by pat_completeness auto
termination
  by (relation "measure (\<lambda>(S, tInSrc, n, endN, lv, rv, r). nat (endN + 1 - n))") auto

definition clamp1 :: "real \<Rightarrow> real" where
  "clamp1 v = (let v = (if v < - 1 then - 1 else v) in if v > 1 then 1 else v)"

text \<open>\<open>at\<close>; the name is taken in Isabelle.\<close>

definition Resampling_at ::
  "'s ReadSeekCloser \<Rightarrow> int \<Rightarrow> 's Resampling \<Rightarrow> ((error + real \<times> real) \<times> 's Resampling) option" where
  "Resampling_at S t r =
     (case window r t of
        (tInSrc, startN, endN) \<Rightarrow>
          (case at_loop S tInSrc startN endN 0 0 r of
             None \<Rightarrow> None
           | Some (Inl e, r') \<Rightarrow> Some (Inl e, r')
           | Some (Inr (lv, rv), r') \<Rightarrow> Some (Inr (clamp1 lv, clamp1 rv), r')))"

subsection \<open>The stream methods of \<open>Resampling\<close>\<close>

text \<open>
  \<open>int16(f)\<close> of a float. \<open>Read\<close> applies it to \<open>v * 32767\<close> with \<open>v\<close> in \<open>[-1, 1]\<close>, where
  the truncation is representable.
\<close>

definition int16_of_float64 :: "real \<Rightarrow> 16 word" where
  "int16_of_float64 x = word_of_int (trunc x)"

text \<open>The four bytes of a frame: \<open>uint8(l16), uint8(l16 >> 8), uint8(r16), uint8(r16 >> 8)\<close>.\<close>

definition putFrame :: "nat \<Rightarrow> 16 word \<Rightarrow> 16 word \<Rightarrow> byte list \<Rightarrow> byte list" where
  "putFrame i l16 r16 b =
     b[4 * i := ucast l16, 4 * i + 1 := ucast (signed_drop_bit 8 l16),
       4 * i + 2 := ucast r16, 4 * i + 3 := ucast (signed_drop_bit 8 r16)]"

text \<open>
  The loop of \<open>Read\<close> (lines 199 to 210) from \<open>i\<close> on, for \<open>n/4\<close> frames; \<open>i < n/4\<close> and
  \<open>n \<le> len(b)\<close>, so the four indices are inside \<open>b\<close> and \<open>r.pos/4 + i\<close> is in range. The
  result is the error, if any, and the buffer as written so far.
\<close>

function Read_loop ::
  "'s ReadSeekCloser \<Rightarrow> int \<Rightarrow> int \<Rightarrow> byte list \<Rightarrow> 's Resampling \<Rightarrow>
     ((error option \<times> byte list) \<times> 's Resampling) option" where
  "Read_loop S i n b r =
     (if i < quot n 4 then
        (case Resampling_at S (quot (pos r) 4 + i) r of
           None \<Rightarrow> None
         | Some (Inl e, r') \<Rightarrow> Some ((Some e, b), r')
         | Some (Inr (lv, rv), r') \<Rightarrow>
             let l16 = int16_of_float64 (lv * (2 ^ 15 - 1));
                 r16 = int16_of_float64 (rv * (2 ^ 15 - 1))
             in Read_loop S (i + 1) n (putFrame (nat i) l16 r16 b) r')
      else Some ((None, b), r))"
  by pat_completeness auto
termination
  by (relation "measure (\<lambda>(S, i, n, b, r). nat (quot n 4 - i))") auto

text \<open>\<open>Read\<close> returns \<open>n\<close>, the error and the buffer.\<close>

definition Resampling_Read ::
  "'s ReadSeekCloser \<Rightarrow> byte list \<Rightarrow> 's Resampling \<Rightarrow>
     ((int \<times> error option \<times> byte list) \<times> 's Resampling) option" where
  "Resampling_Read S b r =
     (if pos r = Length r then Some ((0, Some EOF, b), r)
      else
        let n = quot (int (length b)) 4 * 4;
            n = (if wrap64 (Length r - pos r) \<le> n then wrap64 (Length r - pos r) else n)
        in (case Read_loop S 0 n b r of
              None \<Rightarrow> None
            | Some ((Some e, b'), r') \<Rightarrow> Some ((0, Some e, b'), r')
            | Some ((None, b'), r') \<Rightarrow> Some ((n, None, b'), r'\<lparr>pos := wrap64 (pos r' + n)\<rparr>)))"

definition Resampling_Seek ::
  "int \<Rightarrow> int \<Rightarrow> 's Resampling \<Rightarrow> (int \<times> error option) \<times> 's Resampling" where
  "Resampling_Seek offset whence r =
     (let r = (if whence = SeekStart then r\<lparr>pos := offset\<rparr>
               else if whence = SeekCurrent then r\<lparr>pos := wrap64 (pos r + offset)\<rparr>
               else if whence = SeekEnd then r\<lparr>pos := wrap64 (pos r + wrap64 (Length r + offset))\<rparr>
               else r);
          r = (if pos r < 0 then r\<lparr>pos := 0\<rparr> else r);
          r = (if Length r \<le> pos r then r\<lparr>pos := Length r\<rparr> else r)
      in ((pos r, None), r))"

subsection \<open>\<open>Stereo16\<close>\<close>

record 's Stereo16 =
  source16 :: 's
  mono :: bool
  eight :: bool

definition NewStereo16 :: "'s \<Rightarrow> bool \<Rightarrow> bool \<Rightarrow> 's Stereo16" where
  "NewStereo16 st m e = \<lparr>source16 = st, mono = m, eight = e\<rparr>"

text \<open>\<open>int16(int(x)*0x101 - (1 << 15))\<close> for a byte \<open>x\<close>.\<close>

definition expand8 :: "byte \<Rightarrow> 16 word" where
  "expand8 x = word_of_int (uint x * 0x101 - 2 ^ 15)"

text \<open>The four assignments \<open>b[4*i], \<dots>, b[4*i+3]\<close>; an index outside \<open>b\<close> panics.\<close>

definition put4 :: "nat \<Rightarrow> byte \<Rightarrow> byte \<Rightarrow> byte \<Rightarrow> byte \<Rightarrow> byte list \<Rightarrow> error + byte list" where
  "put4 i b0 b1 b2 b3 b =
     (if 4 * i + 3 < length b
      then Inr (b[4 * i := b0, 4 * i + 1 := b1, 4 * i + 2 := b2, 4 * i + 3 := b3])
      else Inl (Panic ''index out of range''))"

text \<open>The three loops of \<open>Read\<close>, from \<open>i\<close> up to the bound \<open>n\<close>; reading outside \<open>buf\<close> panics.\<close>

function mono8_loop :: "nat \<Rightarrow> nat \<Rightarrow> byte list \<Rightarrow> byte list \<Rightarrow> error + byte list" where
  "mono8_loop i n buf b =
     (if i < n then
        (if i < length buf then
           let v = expand8 (buf ! i)
           in (case put4 i (ucast v) (ucast (signed_drop_bit 8 v))
                           (ucast v) (ucast (signed_drop_bit 8 v)) b of
                 Inl e \<Rightarrow> Inl e
               | Inr b' \<Rightarrow> mono8_loop (i + 1) n buf b')
         else Inl (Panic ''index out of range''))
      else Inr b)"
  by pat_completeness auto
termination
  by (relation "measure (\<lambda>(i, n, buf, b). n - i)") auto

function mono16_loop :: "nat \<Rightarrow> nat \<Rightarrow> byte list \<Rightarrow> byte list \<Rightarrow> error + byte list" where
  "mono16_loop i n buf b =
     (if i < n then
        (if 2 * i + 1 < length buf then
           (case put4 i (buf ! (2 * i)) (buf ! (2 * i + 1)) (buf ! (2 * i)) (buf ! (2 * i + 1)) b of
              Inl e \<Rightarrow> Inl e
            | Inr b' \<Rightarrow> mono16_loop (i + 1) n buf b')
         else Inl (Panic ''index out of range''))
      else Inr b)"
  by pat_completeness auto
termination
  by (relation "measure (\<lambda>(i, n, buf, b). n - i)") auto

function stereo8_loop :: "nat \<Rightarrow> nat \<Rightarrow> byte list \<Rightarrow> byte list \<Rightarrow> error + byte list" where
  "stereo8_loop i n buf b =
     (if i < n then
        (if 2 * i + 1 < length buf then
           let v0 = expand8 (buf ! (2 * i));
               v1 = expand8 (buf ! (2 * i + 1))
           in (case put4 i (ucast v0) (ucast (signed_drop_bit 8 v0))
                           (ucast v1) (ucast (signed_drop_bit 8 v1)) b of
                 Inl e \<Rightarrow> Inl e
               | Inr b' \<Rightarrow> stereo8_loop (i + 1) n buf b')
         else Inl (Panic ''index out of range''))
      else Inr b)"
  by pat_completeness auto
termination
  by (relation "measure (\<lambda>(i, n, buf, b). n - i)") auto

text \<open>
  \<open>Read\<close> of \<open>Stereo16\<close>. \<open>buf\<close> is the zeroed array of length \<open>l\<close> after the source has
  stored its bytes in it. The result is a panic, or \<open>n\<close>, the error and the buffer \<open>b\<close>.
\<close>

definition Stereo16_Read ::
  "'s ReadSeekCloser \<Rightarrow> byte list \<Rightarrow> 's Stereo16 \<Rightarrow>
     (error + nat \<times> error option \<times> byte list) \<times> 's Stereo16" where
  "Stereo16_Read S b s =
     (let l = length b;
          l = (if mono s then l div 2 else l);
          l = (if eight s then l div 2 else l)
      in case Read S l (source16 s) of
           ((d, err), st) \<Rightarrow>
             let buf = take l (d @ replicate (l - length d) 0);
                 n = length d;
                 s' = s\<lparr>source16 := st\<rparr>
             in if err \<noteq> None \<and> err \<noteq> Some EOF then (Inr (0, err, b), s')
                else
                  (case (if mono s \<and> eight s then mono8_loop 0 n buf b
                         else if mono s \<and> \<not> eight s then mono16_loop 0 (n div 2) buf b
                         else if \<not> mono s \<and> eight s then stereo8_loop 0 (n div 2) buf b
                         else Inr b) of
                     Inl e \<Rightarrow> (Inl e, s')
                   | Inr b' \<Rightarrow>
                       let n = (if mono s then n * 2 else n);
                           n = (if eight s then n * 2 else n)
                       in (Inr (n, err, b'), s')))"

section \<open>Notions used by the properties\<close>

subsection \<open>Invariants of a \<open>Resampling\<close>\<close>

text \<open>
  The cache is consistent: at most four indices in the list, none twice, and the list
  and the two maps hold the same indices.
\<close>

definition cache_inv :: "'s Resampling \<Rightarrow> bool" where
  "cache_inv r \<longleftrightarrow>
     length (lruSrcBlocks r) \<le> 4 \<and> distinct (lruSrcBlocks r)
     \<and> dom (srcBufL r) = set (lruSrcBlocks r) \<and> dom (srcBufR r) = set (lruSrcBlocks r)"

text \<open>The cursor is inside the stream.\<close>

definition cursor_inv :: "'s Resampling \<Rightarrow> bool" where
  "cursor_inv r \<longleftrightarrow> 0 \<le> pos r \<and> pos r \<le> Length r"


text \<open>
  \<open>same_stream\<close>: two states of one stream at one cursor. \<open>keeps\<close> is what \<open>src\<close> and \<open>at\<close>
  guarantee of the state they return, \<open>stable\<close> what \<open>Read\<close> and \<open>Seek\<close> guarantee.
\<close>

definition same_stream :: "'s Resampling \<Rightarrow> 's Resampling \<Rightarrow> bool" where
  "same_stream r r' \<longleftrightarrow>
     size' r' = size' r \<and> from' r' = from' r \<and> to' r' = to' r \<and> pos r' = pos r"

definition keeps :: "'s Resampling \<Rightarrow> 's Resampling \<Rightarrow> bool" where
  "keeps r r' \<longleftrightarrow> same_stream r r' \<and> (cache_inv r \<longrightarrow> cache_inv r')"

definition stable :: "'s Resampling \<Rightarrow> 's Resampling \<Rightarrow> bool" where
  "stable r r' \<longleftrightarrow>
     size' r' = size' r \<and> from' r' = from' r \<and> to' r' = to' r
     \<and> (cache_inv r \<longrightarrow> cache_inv r')
     \<and> (0 \<le> Length r \<longrightarrow> cursor_inv r \<longrightarrow> cursor_inv r')"

subsection \<open>Sequences of operations\<close>

text \<open>
  A call of \<open>src\<close>, \<open>Read\<close> or \<open>Seek\<close>; \<open>step\<close> is the state a call leaves when it returns,
  with or without an error, and \<open>run\<close> the state after a sequence of calls.
\<close>

datatype op = Op_src int | Op_Read "byte list" | Op_Seek int int

fun step :: "'s ReadSeekCloser \<Rightarrow> op \<Rightarrow> 's Resampling \<Rightarrow> 's Resampling option" where
  "step S (Op_src i) r = map_option snd (src S i r)"
| "step S (Op_Read b) r = map_option snd (Resampling_Read S b r)"
| "step S (Op_Seek offset whence) r = Some (snd (Resampling_Seek offset whence r))"

fun run :: "'s ReadSeekCloser \<Rightarrow> op list \<Rightarrow> 's Resampling \<Rightarrow> 's Resampling option" where
  "run S [] r = Some r"
| "run S (x # xs) r = (case step S x r of None \<Rightarrow> None | Some r' \<Rightarrow> run S xs r')"

text \<open>
  A source is prompt when a \<open>Read\<close> that reports no error has stored at least one byte.
  The read loop of \<open>src\<close> ends on such a source.
\<close>

definition prompt :: "'s ReadSeekCloser \<Rightarrow> bool" where
  "prompt S \<longleftrightarrow> (\<forall>n s. snd (fst (Read S n s)) = None \<longrightarrow> fst (fst (Read S n s)) \<noteq> [])"

subsection \<open>Decoded blocks\<close>



subsection \<open>The frames the interpolator visits\<close>

text \<open>
  The body of the loop of \<open>at\<close> applied to the frame indices of a list, in order: it says
  over which frames the sums \<open>lv\<close> and \<open>rv\<close> run.
\<close>

fun at_steps ::
  "'s ReadSeekCloser \<Rightarrow> real option \<Rightarrow> int list \<Rightarrow> real \<Rightarrow> real \<Rightarrow> 's Resampling \<Rightarrow>
     ((error + real \<times> real) \<times> 's Resampling) option" where
  "at_steps S tInSrc [] lv rv r = Some (Inr (lv, rv), r)"
| "at_steps S tInSrc (n # ns) lv rv r =
     (case src S n r of
        None \<Rightarrow> None
      | Some (Inl e, r') \<Rightarrow> Some (Inl e, r')
      | Some (Inr (srcL, srcR), r') \<Rightarrow>
          (case tInSrc of
             None \<Rightarrow> Some (Inl (Panic ''index out of range''), r')
           | Some ts \<Rightarrow>
               (case weight (ts - real_of_int n) of
                  Inl e \<Rightarrow> Some (Inl e, r')
                | Inr s \<Rightarrow> at_steps S tInSrc ns (lv + srcL * s) (rv + srcR * s) r')))"

text \<open>
  The window as the specification words it: from the floor of \<open>tSrc - 8\<close> to the ceiling
  of \<open>tSrc + 8\<close>, both ends clamped into \<open>[0, frames - 1]\<close>.
\<close>

definition spec_window :: "'s Resampling \<Rightarrow> int \<Rightarrow> int \<times> int" where
  "spec_window r t =
     (let tSrc = real_of_int t * real_of_int (from' r) / real_of_int (to' r);
          frames = quot (size' r) 4;
          clamp = (\<lambda>n. max 0 (min (frames - 1) n))
      in (clamp \<lfloor>tSrc - 8\<rfloor>, clamp \<lceil>tSrc + 8\<rceil>))"

subsection \<open>The weights\<close>

text \<open>
  The cosine of the phase \<open>x\<close>, in periods, rounded towards zero to a multiple of
  \<open>1/262144\<close> of a period: what the table holds for \<open>x\<close>.
\<close>

definition cos01q :: "real \<Rightarrow> real" where
  "cos01q x = cos (real_of_int \<lfloor>262144 * \<bar>x\<bar>\<rfloor> * pi / 131072)"

text \<open>
  The weight as the specification words it: the taper \<open>0.5 + 0.5 cos(\<pi> d / (2 W + 1))\<close>
  with \<open>W = 8\<close>, times \<open>sinc(d/2) = sin(\<pi> d / 2) / (\<pi> d)\<close>, which is 1 at \<open>d = 0\<close>.
\<close>

definition spec_window_fn :: "real \<Rightarrow> real" where
  "spec_window_fn d = 0.5 + 0.5 * cos (pi * d / (2 * 8 + 1))"

definition spec_sinc_half :: "real \<Rightarrow> real" where
  "spec_sinc_half d = (if d = 0 then 1 else sin (pi * d / 2) / (pi * d))"

definition spec_weight :: "real \<Rightarrow> real" where
  "spec_weight d = spec_sinc_half d * spec_window_fn d"

subsection \<open>Output frames\<close>

text \<open>Frame \<open>j\<close> of a buffer holds the little-endian samples \<open>l\<close> and \<open>r\<close>.\<close>

definition frame_is :: "byte list \<Rightarrow> nat \<Rightarrow> 16 word \<Rightarrow> 16 word \<Rightarrow> bool" where
  "frame_is b j l r \<longleftrightarrow>
     int16le (b ! (4 * j)) (b ! (4 * j + 1)) = l \<and> int16le (b ! (4 * j + 2)) (b ! (4 * j + 3)) = r"

declare mono8_loop.simps [simp del] mono16_loop.simps [simp del] stereo8_loop.simps [simp del]

declare at_loop.simps [simp del] Read_loop.simps [simp del] decode.simps [simp del]

section \<open>Properties\<close>

subsection \<open>The cosine approximator\<close>

text \<open>
  \<open>fastCos01\<close> is the exact cosine of the phase rounded towards zero to the table's
  resolution, \<open>1/262144\<close> of a period, as long as the phase index is representable.
\<close>

lemma cos_shift_int: "cos (x + 2 * pi * real_of_int q) = cos x"
  by (simp add: cos_add)

lemma quadrant_cos:
  assumes "0 \<le> i" "i \<le> 262144"
  shows "(case (if i < cosTable_len then (i, 1)
             else if i < cosTable_len * 2 then (cosTable_len * 2 - i, - 1)
             else if i < cosTable_len * 3 then (i - cosTable_len * 2, - 1)
             else (cosTable_len * 4 - i, 1)) of
          (j, sign) \<Rightarrow> if j = cosTable_len then Inr 0
             else (case cosTable j of Inl e \<Rightarrow> Inl e | Inr c \<Rightarrow> Inr (real_of_int sign * c)))
       = Inr (cos (real_of_int i * pi / 131072))"
proof -
  consider (q1) "i < 65536" | (b1) "i = 65536" | (q2) "65536 < i" "i < 131072"
    | (q3) "131072 \<le> i" "i < 196608" | (b3) "i = 196608" | (q4) "196608 < i"
    by linarith
  then show ?thesis
  proof cases
    case q1
    with assms show ?thesis by (simp add: cosTable_len_def cosTable_def)
  next
    case b1
    have "cos (65536 * pi / 131072) = cos (pi / 2)" by simp
    with b1 show ?thesis by (simp add: cosTable_len_def)
  next
    case q2
    have "real_of_int i * pi / 131072 = pi - real_of_int (131072 - i) * pi / 131072"
      by (simp add: field_simps)
    then have "cos (real_of_int i * pi / 131072) = - cos (real_of_int (131072 - i) * pi / 131072)"
      by (simp only: cos_pi_minus)
    with q2 show ?thesis by (simp add: cosTable_len_def cosTable_def)
  next
    case q3
    have "real_of_int (i - 131072) * pi / 131072 = real_of_int i * pi / 131072 - pi"
      by (simp add: field_simps)
    then have "cos (real_of_int (i - 131072) * pi / 131072) = - cos (real_of_int i * pi / 131072)"
      by (simp only: cos_minus_pi)
    with q3 show ?thesis by (simp add: cosTable_len_def cosTable_def)
  next
    case b3
    have "cos (196608 * pi / 131072) = cos (3 * pi / 2)" by simp
    moreover have "cos (3 * pi / 2) = cos (pi / 2 + pi)" by (simp add: field_simps)
    ultimately have "cos (196608 * pi / 131072) = 0" by (simp only: cos_periodic_pi cos_pi_half)
    with b3 show ?thesis by (simp add: cosTable_len_def)
  next
    case q4
    have "real_of_int (262144 - i) * pi / 131072 = - (real_of_int i * pi / 131072) + 2 * pi"
      by (simp add: field_simps)
    then have "cos (real_of_int (262144 - i) * pi / 131072) = cos (real_of_int i * pi / 131072)"
      by (simp only: cos_periodic cos_minus)
    with q4 assms show ?thesis by (simp add: cosTable_len_def cosTable_def)
  qed
qed

lemma reduce_cos:
  assumes "0 \<le> k"
  shows "cos (real_of_int (if 4 * cosTable_len < k then rem k (4 * cosTable_len) else k) * pi / 131072)
       = cos (real_of_int k * pi / 131072)"
proof (cases "262144 < k")
  case True
  have r: "rem k 262144 = k mod 262144" using True by (simp add: rem_def)
  have "k = k mod 262144 + 262144 * (k div 262144)" by simp
  then have "real_of_int k = real_of_int (k mod 262144) + 262144 * real_of_int (k div 262144)"
    by (metis of_int_add of_int_mult of_int_numeral)
  then have "real_of_int k * pi / 131072
      = real_of_int (k mod 262144) * pi / 131072 + 2 * pi * real_of_int (k div 262144)"
    by (simp add: field_simps)
  then have "cos (real_of_int k * pi / 131072) = cos (real_of_int (k mod 262144) * pi / 131072)"
    by (simp only: cos_shift_int)
  then show ?thesis using True r by (simp add: cosTable_len_def)
next
  case False
  then show ?thesis by (simp add: cosTable_len_def)
qed

lemma reduce_range:
  assumes "0 \<le> k"
  shows "0 \<le> (if 4 * cosTable_len < k then rem k (4 * cosTable_len) else k)"
    and "(if 4 * cosTable_len < k then rem k (4 * cosTable_len) else k) \<le> 262144"
  using assms by (auto simp: rem_def sgn_if cosTable_len_def intro: order_less_imp_le)

lemma fastCos01_quantised:
  assumes "262144 * \<bar>x\<bar> < 2 ^ 63"
  shows "fastCos01 x = Inr (cos (real_of_int \<lfloor>262144 * \<bar>x\<bar>\<rfloor> * pi / 131072))"
proof -
  define k where "k = \<lfloor>262144 * \<bar>x\<bar>\<rfloor>"
  have k0: "0 \<le> k" by (simp add: k_def)
  have k1: "k < 2 ^ 63" using assms unfolding k_def by (simp add: floor_less_iff)
  have ax: "(if x < 0 then - x else x) = \<bar>x\<bar>" by simp
  have t: "trunc (262144 * \<bar>x\<bar>) = k" by (simp add: trunc_def k_def)
  have "int64_of_float64 (Some (262144 * \<bar>x\<bar>)) = k"
    unfolding int64_of_float64_def option.case t using k0 k1 by simp
  then have conv: "int64_of_float64 (Some (4 * real_of_int cosTable_len * \<bar>x\<bar>)) = k"
    by (simp add: cosTable_len_def)
  show ?thesis
    unfolding fastCos01_def ax Let_def conv k_def [symmetric]
    by (simp only: quadrant_cos [OF reduce_range [OF k0]] reduce_cos [OF k0])
qed

lemma fastCos01_zero_at_odd_quarter:
  assumes "262144 * \<bar>x\<bar> < 2 ^ 63"
    and "\<lfloor>262144 * \<bar>x\<bar>\<rfloor> mod 262144 = 65536 \<or> \<lfloor>262144 * \<bar>x\<bar>\<rfloor> mod 262144 = 196608"
  shows "fastCos01 x = Inr 0"
proof -
  define k where "k = \<lfloor>262144 * \<bar>x\<bar>\<rfloor>"
  have split: "real_of_int k = real_of_int (k mod 262144) + 262144 * real_of_int (k div 262144)"
    by (metis mult_div_mod_eq add.commute of_int_add of_int_mult of_int_numeral)
  have "real_of_int k * pi / 131072
      = real_of_int (k mod 262144) * pi / 131072 + 2 * pi * real_of_int (k div 262144)"
    unfolding split by (simp add: field_simps)
  then have c: "cos (real_of_int k * pi / 131072) = cos (real_of_int (k mod 262144) * pi / 131072)"
    by (simp only: cos_shift_int)
  have "cos (real_of_int (k mod 262144) * pi / 131072) = 0"
  proof -
    from assms(2) consider "k mod 262144 = 65536" | "k mod 262144 = 196608"
      unfolding k_def by blast
    then show ?thesis
    proof cases
      case 1
      have "cos (65536 * pi / 131072) = cos (pi / 2)" by simp
      with 1 show ?thesis by simp
    next
      case 2
      have "cos (196608 * pi / 131072) = cos (3 * pi / 2)" by simp
      moreover have "cos (3 * pi / 2) = cos (pi / 2 + pi)" by (simp add: field_simps)
      ultimately have "cos (196608 * pi / 131072) = 0"
        by (simp only: cos_periodic_pi cos_pi_half)
      with 2 show ?thesis by simp
    qed
  qed
  with c fastCos01_quantised [OF assms(1)] show ?thesis by (simp add: k_def)
qed

text \<open>
  C9. \<open>fastCos01\<close> is even; at the phases \<open>0\<close>, \<open>1/4\<close>, \<open>1/2\<close>, \<open>3/4\<close> and \<open>1\<close> of a period
  it returns \<open>1\<close>, \<open>0\<close>, \<open>-1\<close>, \<open>0\<close> and \<open>1\<close>; and it returns \<open>0\<close> whenever the phase index
  folds onto the end of the table, that is, lies a quarter or three quarters into a
  period.
\<close>

theorem fastCos01_even_quadrants:
  "fastCos01 (- x) = fastCos01 x
   \<and> fastCos01 0 = Inr 1
   \<and> fastCos01 (1 / 4) = Inr 0
   \<and> fastCos01 (1 / 2) = Inr (- 1)
   \<and> fastCos01 (3 / 4) = Inr 0
   \<and> fastCos01 1 = Inr 1
   \<and> (262144 * \<bar>y\<bar> < 2 ^ 63 \<longrightarrow>
        \<lfloor>262144 * \<bar>y\<bar>\<rfloor> mod 262144 = 65536 \<or> \<lfloor>262144 * \<bar>y\<bar>\<rfloor> mod 262144 = 196608 \<longrightarrow>
        fastCos01 y = Inr 0)"
proof -
  have even: "fastCos01 (- x) = fastCos01 x"
    by (simp add: fastCos01_def)
  have v0: "fastCos01 0 = Inr 1"
    by (simp add: fastCos01_def int64_of_float64_def trunc_def cosTable_len_def cosTable_def Let_def)
  have v1: "fastCos01 (1 / 4) = Inr 0"
    by (simp add: fastCos01_def int64_of_float64_def trunc_def cosTable_len_def cosTable_def Let_def)
  have v2: "fastCos01 (1 / 2) = Inr (- 1)"
    by (simp add: fastCos01_def int64_of_float64_def trunc_def cosTable_len_def cosTable_def Let_def)
  have v3: "fastCos01 (3 / 4) = Inr 0"
    by (simp add: fastCos01_def int64_of_float64_def trunc_def cosTable_len_def cosTable_def Let_def)
  have v4: "fastCos01 1 = Inr 1"
    by (simp add: fastCos01_def int64_of_float64_def trunc_def cosTable_len_def cosTable_def Let_def)
  from even v0 v1 v2 v3 v4 fastCos01_zero_at_odd_quarter [of y] show ?thesis
    by blast
qed

theorem fastCos01_even_quadrants_witness:
  "262144 * \<bar>5 / 4 :: real\<bar> < 2 ^ 63
   \<and> \<lfloor>262144 * \<bar>5 / 4 :: real\<bar>\<rfloor> mod 262144 = 65536
   \<and> fastCos01 (5 / 4) = Inr 0
   \<and> fastCos01 (- (5 / 4)) = fastCos01 (5 / 4)"
  using fastCos01_even_quadrants [of "5 / 4" "5 / 4"] by simp

text \<open>
  C10. For \<open>\<bar>x\<bar> \<le> 2^40\<close>, \<open>fastCos01\<close> returns a value, which it does exactly when the index
  it reads the table at is inside the table (\<open>cosTable\<close> panics outside \<open>[0, 65535]\<close>), and
  the value lies in \<open>[-1, 1]\<close>.
\<close>

theorem fastCos01_in_bounds:
  assumes "\<bar>x\<bar> \<le> 2 ^ 40"
  shows "\<exists>v. fastCos01 x = Inr v \<and> - 1 \<le> v \<and> v \<le> 1"
proof -
  have "262144 * \<bar>x\<bar> \<le> 262144 * 2 ^ 40" using assms by simp
  also have "\<dots> < (2 ^ 63 :: real)" by simp
  finally have "fastCos01 x = Inr (cos (real_of_int \<lfloor>262144 * \<bar>x\<bar>\<rfloor> * pi / 131072))"
    by (rule fastCos01_quantised)
  then show ?thesis by simp
qed

theorem fastCos01_in_bounds_witness:
  "\<bar>2 ^ 40 :: real\<bar> \<le> 2 ^ 40 \<and> (\<exists>v. fastCos01 (2 ^ 40) = Inr v \<and> - 1 \<le> v \<and> v \<le> 1)"
  using fastCos01_in_bounds [of "2 ^ 40"] by simp

subsection \<open>Rounding to \<open>float64\<close>\<close>

text \<open>
  \<open>binade x\<close> is the exponent of \<open>x\<close>, and \<open>float64 x\<close> is within half a unit in the last
  place of \<open>x\<close>.
\<close>

lemma binade_bounds:
  assumes "x \<noteq> 0"
  shows "2 powi binade x \<le> \<bar>x\<bar> \<and> \<bar>x\<bar> < 2 powi (binade x + 1)"
proof (cases "1 \<le> \<bar>x\<bar>")
  case True
  define n where "n = \<lfloor>\<bar>x\<bar>\<rfloor>"
  have n: "0 < n" using True by (simp add: n_def)
  have b: "binade x = bitlen n - 1" using True by (simp add: binade_def n_def)
  from bitlen_bounds [OF n] have l: "2 ^ nat (bitlen n - 1) \<le> n" and u: "n < 2 ^ nat (bitlen n)"
    by simp_all
  have p: "1 \<le> bitlen n" using n by (simp add: bitlen_alt_def)
  have "(2 :: real) powi binade x = 2 ^ nat (bitlen n - 1)" using p by (simp add: b power_int_def)
  also have "\<dots> = real_of_int (2 ^ nat (bitlen n - 1))" by simp
  also have "\<dots> \<le> real_of_int n" using l by (simp only: of_int_le_iff)
  also have "\<dots> \<le> \<bar>x\<bar>" by (simp add: n_def)
  finally have lo: "2 powi binade x \<le> \<bar>x\<bar>" .
  have "\<bar>x\<bar> < real_of_int (n + 1)" by (simp add: n_def)
  also have "\<dots> \<le> real_of_int (2 ^ nat (bitlen n))"
  proof -
    from u have "n + 1 \<le> 2 ^ nat (bitlen n)" by simp
    then show ?thesis by (simp only: of_int_le_iff)
  qed
  also have "\<dots> = (2 :: real) powi (binade x + 1)" using p by (simp add: b power_int_def)
  finally show ?thesis using lo by simp
next
  case False
  define y where "y = 1 / \<bar>x\<bar>"
  define k where "k = \<lceil>y\<rceil> - 1"
  have x: "0 < \<bar>x\<bar>" "\<bar>x\<bar> < 1" using assms False by simp_all
  then have y: "1 < y" by (simp add: y_def)
  then have k: "0 < k" unfolding k_def by linarith
  have b: "binade x = - bitlen k" using False by (simp add: binade_def k_def y_def)
  from bitlen_bounds [OF k] have l: "2 ^ nat (bitlen k - 1) \<le> k" and u: "k < 2 ^ nat (bitlen k)"
    by simp_all
  have p: "1 \<le> bitlen k" using k by (simp add: bitlen_alt_def)
  have xy: "\<bar>x\<bar> = 1 / y" using x by (simp add: y_def)
  have "y \<le> real_of_int (k + 1)" by (simp add: k_def)
  also have "\<dots> \<le> real_of_int (2 ^ nat (bitlen k))"
  proof -
    from u have "k + 1 \<le> 2 ^ nat (bitlen k)" by simp
    then show ?thesis by (simp only: of_int_le_iff)
  qed
  also have "\<dots> = 2 ^ nat (bitlen k)" by simp
  finally have "1 / 2 ^ nat (bitlen k) \<le> 1 / y" using y by (simp add: frac_le)
  moreover have "(2 :: real) powi binade x = 1 / 2 ^ nat (bitlen k)"
    using p by (simp add: b power_int_def field_simps)
  ultimately have lo: "2 powi binade x \<le> \<bar>x\<bar>" by (simp add: xy)
  have "(2 :: real) ^ nat (bitlen k - 1) = real_of_int (2 ^ nat (bitlen k - 1))" by simp
  also have "\<dots> \<le> real_of_int k" using l by (simp only: of_int_le_iff)
  also have "\<dots> < y" unfolding k_def by linarith
  finally have "1 / y < 1 / 2 ^ nat (bitlen k - 1)" by (simp add: frac_less2)
  moreover have "(2 :: real) powi (binade x + 1) = 1 / 2 ^ nat (bitlen k - 1)"
    using p by (simp add: b power_int_def field_simps)
  ultimately show ?thesis using lo by (simp add: xy)
qed

lemma binade_unique:
  assumes "2 powi e \<le> \<bar>x\<bar>" "\<bar>x\<bar> < 2 powi (e + 1)"
  shows "binade x = e"
proof -
  have x: "x \<noteq> 0"
  proof
    assume "x = 0"
    with assms(1) have "(2 :: real) powi e \<le> 0" by simp
    moreover have "0 < (2 :: real) powi e" by (rule zero_less_power_int) simp
    ultimately show False by linarith
  qed
  note b = binade_bounds [OF x]
  have "\<not> e + 1 \<le> binade x"
  proof
    assume "e + 1 \<le> binade x"
    then have "(2 :: real) powi (e + 1) \<le> 2 powi binade x" by (rule power_int_increasing) simp
    with assms b show False by simp
  qed
  moreover have "\<not> binade x + 1 \<le> e"
  proof
    assume "binade x + 1 \<le> e"
    then have "(2 :: real) powi (binade x + 1) \<le> 2 powi e" by (rule power_int_increasing) simp
    with assms b show False by simp
  qed
  ultimately show ?thesis by simp
qed

lemma round_even_error: "\<bar>real_of_int (round_even y) - y\<bar> \<le> 1 / 2"
  unfolding round_even_def Let_def by (auto simp: abs_if) linarith+

lemma round_even_of_int: "round_even (real_of_int m) = m"
  by (simp add: round_even_def)

lemma float64_nearest:
  "\<bar>float64 x - x\<bar> \<le> 2 powi (max (binade x) (- 1022) - 52) / 2"
proof (cases "x = 0")
  case True
  then show ?thesis by (simp add: float64_def)
next
  case False
  define u :: real where "u = 2 powi (max (binade x) (- 1022) - 52)"
  have u: "0 < u" by (simp add: u_def)
  have "float64 x - x = (real_of_int (round_even (x / u)) - x / u) * u"
    using False u by (simp add: float64_def u_def [symmetric] Let_def algebra_simps)
  then have "\<bar>float64 x - x\<bar> = \<bar>real_of_int (round_even (x / u)) - x / u\<bar> * u"
    using u by (simp add: abs_mult)
  also have "\<dots> \<le> 1 / 2 * u"
    by (rule mult_right_mono [OF round_even_error]) (use u in simp)
  finally show ?thesis by (simp add: u_def)
qed

lemma float64_bound: "\<bar>float64 x\<bar> \<le> 2 * \<bar>x\<bar> + 1"
proof (cases "x = 0")
  case True
  then show ?thesis by (simp add: float64_def)
next
  case False
  define e where "e = max (binade x) (- 1022)"
  have "(2 :: real) powi (e - 52) \<le> \<bar>x\<bar> + 1"
  proof (cases "- 1022 \<le> binade x")
    case True
    then have "e = binade x" by (simp add: e_def)
    then have "(2 :: real) powi (e - 52) \<le> 2 powi binade x"
      by (simp add: power_int_increasing)
    also have "\<dots> \<le> \<bar>x\<bar>" using binade_bounds [OF False] by simp
    finally show ?thesis by simp
  next
    case False
    then have "e = - 1022" by (simp add: e_def)
    then have "(2 :: real) powi (e - 52) \<le> 2 powi 0"
      by (simp add: power_int_increasing)
    then show ?thesis by simp
  qed
  with float64_nearest [of x] show ?thesis unfolding e_def by (simp add: abs_if split: if_splits)
qed

text \<open>
  A number \<open>m * 2^k\<close> with \<open>\<bar>m\<bar> < 2^53\<close> and \<open>k \<ge> -1074\<close> is a \<open>float64\<close>, and rounding
  leaves it as it is; halving is exact above the subnormal range.
\<close>

lemma float64_exact:
  assumes x: "x = real_of_int m * 2 powi k" and m: "\<bar>m\<bar> < 2 ^ 53" and k: "- 1074 \<le> k"
  shows "float64 x = x"
proof (cases "x = 0")
  case True
  then show ?thesis by (simp add: float64_def)
next
  case False
  define e where "e = max (binade x) (- 1022)"
  define u :: real where "u = 2 powi (e - 52)"
  have u: "0 < u" by (simp add: u_def)
  have ek: "e \<le> k + 52"
  proof (cases "- 1022 \<le> binade x")
    case True
    then have e: "e = binade x" by (simp add: e_def)
    have "(2 :: real) powi e \<le> \<bar>x\<bar>" using binade_bounds [OF False] by (simp add: e)
    also have "\<bar>x\<bar> = real_of_int \<bar>m\<bar> * 2 powi k" by (simp add: x abs_mult)
    also have "\<dots> < 2 ^ 53 * 2 powi k"
    proof (rule mult_strict_right_mono)
      from m have "real_of_int \<bar>m\<bar> < real_of_int (2 ^ 53)" by (simp only: of_int_less_iff)
      then show "real_of_int \<bar>m\<bar> < 2 ^ 53" by simp
    qed simp
    also have "\<dots> = 2 powi (53 + k)" by (simp add: power_int_add)
    finally have lt: "(2 :: real) powi e < 2 powi (53 + k)" .
    have "e < 53 + k"
    proof (rule ccontr)
      assume "\<not> e < 53 + k"
      then have "53 + k \<le> e" by simp
      then have "(2 :: real) powi (53 + k) \<le> 2 powi e" by (rule power_int_increasing) simp
      with lt show False by simp
    qed
    then show ?thesis by simp
  next
    case False
    then have "e = - 1022" by (simp add: e_def)
    with k show ?thesis by simp
  qed
  then have n: "0 \<le> k - (e - 52)" by simp
  have "x / u = real_of_int m * (2 powi k / 2 powi (e - 52))" by (simp add: x u_def)
  also have "(2 :: real) powi k / 2 powi (e - 52) = 2 powi (k - (e - 52))"
    by (simp add: power_int_diff)
  also have "\<dots> = 2 ^ nat (k - (e - 52))" using n by (simp add: power_int_def)
  finally have "x / u = real_of_int (m * 2 ^ nat (k - (e - 52)))" by simp
  then have "real_of_int (round_even (x / u)) = x / u" by (simp only: round_even_of_int)
  then have "real_of_int (round_even (x / u)) * u = x" using u by simp
  then show ?thesis using False by (simp add: float64_def e_def [symmetric] u_def [symmetric] Let_def)
qed

lemma float64_half:
  assumes "2 powi (- 1021) \<le> \<bar>d\<bar>"
  shows "float64 (d / 2) = float64 d / 2"
proof -
  have "0 < (2 :: real) powi (- 1021)" by simp
  with assms have d: "d \<noteq> 0" by auto
  note b = binade_bounds [OF d]
  have "\<not> binade d + 1 \<le> - 1021"
  proof
    assume "binade d + 1 \<le> - 1021"
    then have "(2 :: real) powi (binade d + 1) \<le> 2 powi (- 1021)"
      by (rule power_int_increasing) simp
    with assms b show False by simp
  qed
  then have e: "- 1021 \<le> binade d" by simp
  have p: "(2 :: real) powi (binade d - 1) = 2 powi binade d / 2"
    "(2 :: real) powi (binade d - 1 + 1) = 2 powi (binade d + 1) / 2"
    by (simp_all add: power_int_diff power_int_add)
  have "binade (d / 2) = binade d - 1"
    by (rule binade_unique) (use b in \<open>simp_all only: p abs_divide, simp_all\<close>)
  with e have m: "max (binade d) (- 1022) = binade d"
    "max (binade (d / 2)) (- 1022) = binade d - 1" by simp_all
  define u :: real where "u = 2 powi (binade d - 52)"
  have u: "(2 :: real) powi (binade d - 1 - 52) = u / 2" "u \<noteq> 0"
    by (simp_all add: u_def power_int_diff)
  have "float64 (d / 2) = real_of_int (round_even (d / 2 / (u / 2))) * (u / 2)"
    unfolding float64_def Let_def m u using d by simp
  also have "d / 2 / (u / 2) = d / u" by simp
  also have "real_of_int (round_even (d / u)) * (u / 2) = real_of_int (round_even (d / u)) * u / 2"
    by simp
  also have "real_of_int (round_even (d / u)) * u = float64 d"
    unfolding float64_def Let_def m u_def using d by simp
  finally show ?thesis .
qed

subsection \<open>\<open>Length\<close>\<close>

lemma quot_nonneg: "0 \<le> a \<Longrightarrow> 0 < b \<Longrightarrow> quot a b = a div b"
  by (simp add: quot_def sgn_if)

lemma Length_dvd: "4 dvd Length r"
  by (simp add: Length_def Let_def)

lemma Length_in_range:
  assumes "0 \<le> size' r" "0 < from' r" "0 < to' r"
    and "real_of_int (size' r) * real_of_int (to' r) / real_of_int (from' r) < 2 ^ 63"
  shows "Length r = \<lfloor>real_of_int (size' r) * real_of_int (to' r) / real_of_int (from' r)\<rfloor> div 4 * 4"
proof -
  define q where "q = real_of_int (size' r) * real_of_int (to' r) / real_of_int (from' r)"
  have q0: "0 \<le> q" using assms(1-3) by (simp add: q_def)
  then have t: "trunc q = \<lfloor>q\<rfloor>" by (simp add: trunc_def)
  have f0: "0 \<le> \<lfloor>q\<rfloor>" using q0 by simp
  have f1: "\<lfloor>q\<rfloor> < 2 ^ 63" using assms(4) by (simp add: q_def floor_less_iff)
  have "int64_of_float64 (float_div (real_of_int (size' r) * real_of_int (to' r)) (real_of_int (from' r))) = \<lfloor>q\<rfloor>"
    using assms(2) f0 f1 t by (simp add: float_div_def int64_of_float64_def q_def)
  then show ?thesis using f0 by (simp add: Length_def Let_def quot_nonneg q_def)
qed

lemma Length_cong:
  "size' r' = size' r \<Longrightarrow> from' r' = from' r \<Longrightarrow> to' r' = to' r \<Longrightarrow> Length r' = Length r"
  by (simp add: Length_def)

lemma Length_range: "- (2 ^ 63) \<le> Length r \<and> Length r < 2 ^ 63"
proof -
  define s where "s = int64_of_float64
                (float_div (real_of_int (size' r) * real_of_int (to' r)) (real_of_int (from' r)))"
  have "- (2 ^ 63) \<le> s \<and> s < 2 ^ 63"
    by (auto simp: s_def int64_of_float64_def int64_indefinite_def split: option.splits)
  moreover have "Length r = quot s 4 * 4" by (simp add: Length_def s_def)
  ultimately show ?thesis by (auto simp: quot_def sgn_if)
qed

lemma wrap64_id: "- (2 ^ 63) \<le> x \<Longrightarrow> x < 2 ^ 63 \<Longrightarrow> wrap64 x = x"
  by (simp add: wrap64_def)


subsection \<open>The cache invariant\<close>

lemma keeps_refl: "keeps r r"
  by (simp add: keeps_def same_stream_def)

lemma keeps_trans: "keeps r r' \<Longrightarrow> keeps r' r'' \<Longrightarrow> keeps r r''"
  by (simp add: keeps_def same_stream_def)

lemma keeps_source: "keeps r (r\<lparr>source := s\<rparr>)"
  by (auto simp: keeps_def same_stream_def cache_inv_def)

lemma keeps_srcBlock: "keeps r (r\<lparr>srcBlock := k\<rparr>)"
  by (auto simp: keeps_def same_stream_def cache_inv_def)

lemma lruIndex_notin: "p \<notin> set xs \<Longrightarrow> lruIndex p xs i = - 1"
  by (induction xs arbitrary: i) auto

lemma lruIndex_some:
  "p \<in> set xs \<Longrightarrow> \<exists>k < length xs. lruIndex p xs i = i + int k \<and> xs ! k = p"
proof (induction xs arbitrary: i)
  case Nil
  then show ?case by simp
next
  case (Cons q qs)
  show ?case
  proof (cases "q = p")
    case True
    then show ?thesis by auto
  next
    case False
    with Cons.prems have "p \<in> set qs" by simp
    from Cons.IH [OF this, of "i + 1"] obtain k where
      "k < length qs" "lruIndex p qs (i + 1) = i + 1 + int k" "qs ! k = p" by blast
    with False show ?thesis by (intro exI [of _ "Suc k"]) simp
  qed
qed

lemma remove_nth_distinct:
  assumes "distinct xs" "k < length xs"
  shows "distinct (take k xs @ drop (Suc k) xs)"
    and "set (take k xs @ drop (Suc k) xs) = set xs - {xs ! k}"
    and "length (take k xs @ drop (Suc k) xs) = length xs - 1"
proof -
  have xs: "xs = take k xs @ xs ! k # drop (Suc k) xs"
    using assms(2) by (simp add: id_take_nth_drop)
  from assms(1) have d: "distinct (take k xs @ xs ! k # drop (Suc k) xs)"
    using xs by simp
  then show "distinct (take k xs @ drop (Suc k) xs)" by simp
  have "set xs = set (take k xs @ xs ! k # drop (Suc k) xs)" using xs by simp
  with d show "set (take k xs @ drop (Suc k) xs) = set xs - {xs ! k}" by auto
  show "length (take k xs @ drop (Suc k) xs) = length xs - 1" using assms(2) by simp
qed

lemma srcTouch_keeps:
  assumes "srcTouch np r = Inr r'"
  shows "keeps r r'"
proof -
  let ?xs = "lruSrcBlocks r"
  from assms have ne: "lruIndex np ?xs 0 \<noteq> - 1"
    by (auto simp: srcTouch_def Let_def split: if_splits)
  then have mem: "np \<in> set ?xs"
    using lruIndex_notin [of np ?xs 0] by blast
  from lruIndex_some [OF mem, of 0] obtain k where
    k: "k < length ?xs" "lruIndex np ?xs 0 = int k" "?xs ! k = np" by auto
  from assms ne k have r': "r' = r\<lparr>srcBlock := np, lruSrcBlocks := take k ?xs @ drop (Suc k) ?xs @ [np]\<rparr>"
    by (simp add: srcTouch_def Let_def nat_add_distrib)
  have ss: "same_stream r r'" by (simp add: r' same_stream_def)
  have "cache_inv r'" if inv: "cache_inv r"
  proof -
    from inv have d: "distinct ?xs" by (simp add: cache_inv_def)
    note rn = remove_nth_distinct [OF d k(1)]
    have 1: "distinct (take k ?xs @ drop (Suc k) ?xs @ [np])"
      using rn(1,2) k(3) by auto
    have 2: "set (take k ?xs @ drop (Suc k) ?xs @ [np]) = set ?xs"
      using rn(2) k(3) mem by auto
    have 3: "length (take k ?xs @ drop (Suc k) ?xs @ [np]) = length ?xs"
      using rn(3) k(1) by simp
    from inv have "length ?xs \<le> 4" "dom (srcBufL r) = set ?xs" "dom (srcBufR r) = set ?xs"
      by (simp_all add: cache_inv_def)
    with 1 2 3 show ?thesis
      unfolding cache_inv_def r' by simp
  qed
  with ss show ?thesis by (simp add: keeps_def)
qed


lemma srcStore_keeps:
  assumes "srcStore np buf r = Inr r'" and fresh: "srcBufL r np = None"
  shows "keeps r r'"
proof -
  let ?xs = "lruSrcBlocks r"
  obtain sl sr where dec: "decode 0 buf (replicate (nat resamplingBufferSize) 0)
                (replicate (nat resamplingBufferSize) 0) = (sl, sr)" by fastforce
  have ss: "same_stream r r'"
    using assms(1) dec by (auto simp: srcStore_def Let_def same_stream_def split: if_splits)
  have "cache_inv r'" if inv: "cache_inv r"
  proof -
    from inv have len: "length ?xs \<le> 4" and d: "distinct ?xs"
      and L: "dom (srcBufL r) = set ?xs" and R: "dom (srcBufR r) = set ?xs"
      by (simp_all add: cache_inv_def)
    from fresh L have np: "np \<notin> set ?xs" by auto
    show ?thesis
    proof (cases "4 \<le> length ?xs")
      case False
      with assms(1) dec have r': "r' = r\<lparr>srcBlock := np, srcBufL := (srcBufL r)(np \<mapsto> sl),
          srcBufR := (srcBufR r)(np \<mapsto> sr), lruSrcBlocks := ?xs @ [np]\<rparr>"
        by (auto simp: srcStore_def Let_def split: if_splits)
      show ?thesis unfolding cache_inv_def r' using False d L R np by auto
    next
      case True
      then obtain p ps where xs: "?xs = p # ps" by (cases ?xs) auto
      with True assms(1) dec have r': "r' = r\<lparr>srcBlock := np, srcBufL := ((srcBufL r)(np \<mapsto> sl))(p := None),
          srcBufR := ((srcBufR r)(np \<mapsto> sr))(p := None), lruSrcBlocks := ps @ [np]\<rparr>"
        by (auto simp: srcStore_def Let_def split: if_splits)
      from np xs have pnp: "p \<noteq> np" by auto
      from d xs have pps: "p \<notin> set ps" "distinct ps" by auto
      have dl: "dom (srcBufL r) = insert p (set ps)" using L xs by auto
      have dr: "dom (srcBufR r) = insert p (set ps)" using R xs by auto
      show ?thesis unfolding cache_inv_def r' using len xs pnp pps np dl dr by auto
    qed
  qed
  with ss show ?thesis by (simp add: keeps_def)
qed

lemma srcReturn_state: "snd (srcReturn i r) = r"
  by (simp add: srcReturn_def Let_def split: sum.splits)

lemma srcReturn_keeps: "srcReturn i r = (res, r') \<Longrightarrow> r' = r"
  using srcReturn_state [of i r] by simp

lemma src_keeps:
  assumes "src S i r = Some (res, r')"
  shows "keeps r r'"
proof -
  let ?np = "quot i resamplingBufferSize"
  consider (out) "i < 0 \<or> quot (size' r) 4 \<le> i"
    | (load) "\<not> (i < 0 \<or> quot (size' r) 4 \<le> i)" "srcBufL r ?np = None"
    | (hit) "\<not> (i < 0 \<or> quot (size' r) 4 \<le> i)" "srcBufL r ?np \<noteq> None"
    by blast
  then show ?thesis
  proof cases
    case out
    with assms have "r' = r" by (auto simp: src_def split: if_splits)
    then show ?thesis by (simp add: keeps_refl)
  next
    case hit
    with assms show ?thesis
      by (auto simp: src_def Let_def keeps_srcBlock split: sum.splits
          dest!: srcReturn_keeps dest: srcTouch_keeps)
  next
    case load
    have st: "keeps r r''" if "srcStore ?np buf (r\<lparr>source := s\<rparr>) = Inr r''" for buf s r''
      using srcStore_keeps [OF that] load(2) keeps_source [of r s] by (auto intro: keeps_trans)
    from load assms show ?thesis
      by (auto simp: src_def Let_def keeps_source split: sum.splits option.splits prod.splits if_splits
          dest!: srcReturn_keeps dest: st)
  qed
qed

lemma at_loop_keeps:
  "at_loop S tInSrc n endN lv rv r = Some (res, r') \<Longrightarrow> keeps r r'"
proof (induction S tInSrc n endN lv rv r rule: at_loop.induct)
  case (1 S tInSrc n endN lv rv r)
  show ?case
  proof (cases "n \<le> endN")
    case False
    with "1.prems" show ?thesis by (simp add: at_loop.simps keeps_refl)
  next
    case True
    with "1.prems" obtain res1 r1 where s: "src S n r = Some (res1, r1)"
      by (subst (asm) at_loop.simps) (auto split: option.splits)
    note k1 = src_keeps [OF s]
    show ?thesis
    proof (cases res1)
      case (Inl e)
      with "1.prems" True s have "r' = r1" by (subst (asm) at_loop.simps) simp
      with k1 show ?thesis by simp
    next
      case (Inr v)
      obtain srcL srcR where v: "v = (srcL, srcR)" by (cases v)
      show ?thesis
      proof (cases tInSrc)
        case None
        with "1.prems" True s Inr v have "r' = r1" by (subst (asm) at_loop.simps) simp
        with k1 show ?thesis by simp
      next
        case (Some ts)
        show ?thesis
        proof (cases "weight (ts - real_of_int n)")
          case (Inl e)
          with "1.prems" True s Inr v Some have "r' = r1" by (subst (asm) at_loop.simps) simp
          with k1 show ?thesis by simp
        next
          case w: (Inr sw)
          with "1.prems" True s Inr v Some
          have "at_loop S tInSrc (n + 1) endN (lv + srcL * sw) (rv + srcR * sw) r1 = Some (res, r')"
            by (subst (asm) at_loop.simps) simp
          from "1.IH" [OF True s refl Inr v [symmetric] Some w this] have "keeps r1 r'" .
          with k1 show ?thesis by (rule keeps_trans)
        qed
      qed
    qed
  qed
qed

lemma Resampling_at_keeps:
  assumes "Resampling_at S t r = Some (res, r')"
  shows "keeps r r'"
proof -
  obtain tInSrc startN endN where w: "window r t = (tInSrc, startN, endN)"
    by (cases "window r t") auto
  with assms obtain res1 where "at_loop S tInSrc startN endN 0 0 r = Some (res1, r')"
    by (auto simp: Resampling_at_def split: option.splits sum.splits prod.splits)
  then show ?thesis by (rule at_loop_keeps)
qed

lemma Read_loop_keeps:
  "Read_loop S i n b r = Some (res, r') \<Longrightarrow> keeps r r'"
proof (induction S i n b r rule: Read_loop.induct)
  case (1 S i n b r)
  show ?case
  proof (cases "i < quot n 4")
    case False
    with "1.prems" show ?thesis by (simp add: Read_loop.simps keeps_refl)
  next
    case True
    with "1.prems" obtain res1 r1 where a: "Resampling_at S (quot (pos r) 4 + i) r = Some (res1, r1)"
      by (subst (asm) Read_loop.simps) (auto split: option.splits)
    note k1 = Resampling_at_keeps [OF a]
    show ?thesis
    proof (cases res1)
      case (Inl e)
      with "1.prems" True a have "r' = r1" by (subst (asm) Read_loop.simps) simp
      with k1 show ?thesis by simp
    next
      case (Inr v)
      obtain lv rv where v: "v = (lv, rv)" by (cases v)
      define l16 where "l16 = int16_of_float64 (lv * (2 ^ 15 - 1))"
      define r16 where "r16 = int16_of_float64 (rv * (2 ^ 15 - 1))"
      from "1.prems" True a Inr v
      have "Read_loop S (i + 1) n (putFrame (nat i) l16 r16 b) r1 = Some (res, r')"
        by (subst (asm) Read_loop.simps) (simp add: l16_def r16_def Let_def)
      from "1.IH" [OF True a refl Inr v [symmetric] l16_def r16_def this] have "keeps r1 r'" .
      with k1 show ?thesis by (rule keeps_trans)
    qed
  qed
qed

lemma Resampling_Read_keeps:
  assumes "Resampling_Read S b r = Some ((n, err, b'), r')"
  shows "\<exists>r1. keeps r r1 \<and> (r' = r1 \<or> (err = None \<and> r' = r1\<lparr>pos := wrap64 (pos r1 + n)\<rparr>
           \<and> n = (if wrap64 (Length r - pos r) \<le> quot (int (length b)) 4 * 4
                   then wrap64 (Length r - pos r) else quot (int (length b)) 4 * 4)))"
  using assms
  by (auto simp: Resampling_Read_def Let_def keeps_refl split: if_splits option.splits prod.splits
      dest: Read_loop_keeps)


lemma keeps_Length: "keeps r r' \<Longrightarrow> Length r' = Length r"
  by (rule Length_cong) (simp_all add: keeps_def same_stream_def)

lemma keeps_stable: "keeps r r' \<Longrightarrow> stable r r'"
  using keeps_Length [of r r'] by (auto simp: keeps_def stable_def same_stream_def cursor_inv_def)

lemma Seek_result:
  "Resampling_Seek offset whence r =
     (let target = (if whence = SeekStart then offset
                    else if whence = SeekCurrent then wrap64 (pos r + offset)
                    else if whence = SeekEnd then wrap64 (pos r + wrap64 (Length r + offset))
                    else pos r);
          p = (if target < 0 then 0 else target);
          p = (if Length r \<le> p then Length r else p)
      in ((p, None), r\<lparr>pos := p\<rparr>))"
proof -
  have L: "Length (r\<lparr>pos := q\<rparr>) = Length r" for q by (simp add: Length_def)
  show ?thesis by (simp add: Resampling_Seek_def Let_def L)
qed

lemma Seek_stable: "stable r (snd (Resampling_Seek offset whence r))"
proof -
  have L: "Length (r\<lparr>pos := q\<rparr>) = Length r" for q by (simp add: Length_def)
  show ?thesis
    unfolding Seek_result by (auto simp: stable_def Let_def cache_inv_def cursor_inv_def L)
qed

lemma Read_cursor:
  assumes "cursor_inv r" "Resampling_Read S b r = Some ((n, err, b'), r')"
  shows "pos r \<le> pos r' \<and> pos r' \<le> Length r' \<and> Length r' = Length r"
proof -
  from Resampling_Read_keeps [OF assms(2)] obtain r1 where k: "keeps r r1"
    and c: "r' = r1 \<or> (err = None \<and> r' = r1\<lparr>pos := wrap64 (pos r1 + n)\<rparr>
           \<and> n = (if wrap64 (Length r - pos r) \<le> quot (int (length b)) 4 * 4
                   then wrap64 (Length r - pos r) else quot (int (length b)) 4 * 4))"
    by blast
  from k have p1: "pos r1 = pos r" by (simp add: keeps_def same_stream_def)
  from k have L1: "Length r1 = Length r" by (rule keeps_Length)
  have Lp: "Length (r1\<lparr>pos := q\<rparr>) = Length r1" for q by (simp add: Length_def)
  from c show ?thesis
  proof
    assume "r' = r1"
    with p1 L1 assms(1) show ?thesis by (simp add: cursor_inv_def)
  next
    assume a: "err = None \<and> r' = r1\<lparr>pos := wrap64 (pos r1 + n)\<rparr>
           \<and> n = (if wrap64 (Length r - pos r) \<le> quot (int (length b)) 4 * 4
                   then wrap64 (Length r - pos r) else quot (int (length b)) 4 * 4)"
    from assms(1) Length_range [of r] have d: "wrap64 (Length r - pos r) = Length r - pos r"
      by (intro wrap64_id) (auto simp: cursor_inv_def)
    have q: "0 \<le> quot (int (length b)) 4 * 4" by (simp add: quot_def sgn_if)
    from a d q assms(1) have n: "0 \<le> n" "pos r + n \<le> Length r"
      by (auto simp: cursor_inv_def split: if_splits)
    with assms(1) Length_range [of r] have "wrap64 (pos r + n) = pos r + n"
      by (intro wrap64_id) (auto simp: cursor_inv_def)
    with a n p1 L1 Lp show ?thesis by simp
  qed
qed

lemma Read_stable:
  assumes "Resampling_Read S b r = Some (res, r')"
  shows "stable r r'"
proof -
  obtain n err b' where res: "res = (n, err, b')" by (cases res)
  from Resampling_Read_keeps [OF assms [unfolded res]] obtain r1 where k: "keeps r r1"
    and c: "r' = r1 \<or> r' = r1\<lparr>pos := wrap64 (pos r1 + n)\<rparr>" by blast
  from k c have 1: "size' r' = size' r \<and> from' r' = from' r \<and> to' r' = to' r"
    by (auto simp: keeps_def same_stream_def)
  have "cache_inv (r1\<lparr>pos := q\<rparr>) = cache_inv r1" for q
    by (simp add: cache_inv_def)
  with k c have 2: "cache_inv r \<longrightarrow> cache_inv r'"
    by (auto simp: keeps_def)
  have 3: "cursor_inv r \<longrightarrow> cursor_inv r'"
  proof
    assume ci: "cursor_inv r"
    from Read_cursor [OF ci assms [unfolded res]] ci show "cursor_inv r'"
      by (simp add: cursor_inv_def)
  qed
  from 1 2 3 show ?thesis by (simp add: stable_def)
qed

lemma stable_refl: "stable r r"
  by (simp add: stable_def)

lemma stable_trans:
  assumes "stable r r'" "stable r' r''"
  shows "stable r r''"
proof -
  from assms(1) have "Length r' = Length r" by (intro Length_cong) (simp_all add: stable_def)
  with assms show ?thesis by (simp add: stable_def)
qed

lemma step_stable: "step S x r = Some r' \<Longrightarrow> stable r r'"
proof (cases x)
  case (Op_src i)
  assume "step S x r = Some r'"
  with Op_src obtain res where "src S i r = Some (res, r')" by auto
  then show ?thesis by (intro keeps_stable src_keeps)
next
  case (Op_Read b)
  assume "step S x r = Some r'"
  with Op_Read obtain res where "Resampling_Read S b r = Some (res, r')" by auto
  then show ?thesis by (rule Read_stable)
next
  case (Op_Seek offset whence)
  assume "step S x r = Some r'"
  with Op_Seek show ?thesis using Seek_stable [of r offset whence] by auto
qed

lemma run_stable: "run S xs r = Some r' \<Longrightarrow> stable r r'"
proof (induction xs arbitrary: r)
  case Nil
  then show ?case by (simp add: stable_refl)
next
  case (Cons x xs)
  then obtain r1 where s: "step S x r = Some r1" and t: "run S xs r1 = Some r'"
    by (auto split: option.splits)
  from step_stable [OF s] Cons.IH [OF t] show ?case by (rule stable_trans)
qed

lemma cache_inv_New: "cache_inv (NewResampling st sz f t)"
  by (simp add: cache_inv_def NewResampling_def)


subsection \<open>Loading a block\<close>









subsection \<open>Termination on a prompt source\<close>

lemma readBlock_returns:
  assumes "prompt S"
  shows "\<exists>y. readBlock S len buf s = Some y"
proof (induction "len - length buf" arbitrary: buf s rule: less_induct)
  case less
  show ?case
  proof (cases "length buf < len")
    case False
    then show ?thesis by (subst readBlock.simps) simp
  next
    case True
    obtain d err s1 where rd: "Read S (len - length buf) s = ((d, err), s1)"
      by (metis surj_pair)
    show ?thesis
    proof (cases err)
      case (Some e)
      with True rd show ?thesis by (subst readBlock.simps) simp
    next
      case None
      with assms rd have "d \<noteq> []" unfolding prompt_def by (metis fst_conv snd_conv)
      with True have "len - length (buf @ d) < len - length buf" by (cases d) auto
      from less [OF this] obtain y where "readBlock S len (buf @ d) s1 = Some y" by blast
      with True rd None show ?thesis by (subst readBlock.simps) simp
    qed
  qed
qed

lemma src_returns:
  assumes "prompt S"
  shows "\<exists>y. src S i r = Some y"
proof -
  let ?np = "quot i resamplingBufferSize"
  consider (out) "i < 0 \<or> quot (size' r) 4 \<le> i"
    | (load) "\<not> (i < 0 \<or> quot (size' r) 4 \<le> i)" "srcBufL r ?np = None"
    | (hit) "\<not> (i < 0 \<or> quot (size' r) 4 \<le> i)" "srcBufL r ?np \<noteq> None"
    by blast
  then show ?thesis
  proof cases
    case out
    then show ?thesis by (auto simp: src_def)
  next
    case hit
    then show ?thesis by (auto simp: src_def Let_def split: sum.splits)
  next
    case load
    obtain p serr s1 where sk: "(if srcBlock r + 1 \<noteq> ?np
          then Seek S (?np * resamplingBufferSize * 4) SeekStart (source r)
          else ((0, None), source r)) = ((p, serr), s1)"
      by (metis surj_pair)
    show ?thesis
    proof (cases serr)
      case (Some e)
      with load sk show ?thesis unfolding src_def Let_def by simp
    next
      case None
      from readBlock_returns [OF assms] obtain res s2
        where rb: "readBlock S (nat (resamplingBufferSize * 4)) [] s1 = Some (res, s2)"
        by (metis surj_pair)
      from load sk [unfolded None] show ?thesis
        unfolding src_def Let_def by (cases res) (simp_all add: rb split: sum.splits)
    qed
  qed
qed

lemma at_loop_returns:
  "prompt S \<Longrightarrow> \<exists>y. at_loop S tInSrc n endN lv rv r = Some y"
proof (induction S tInSrc n endN lv rv r rule: at_loop.induct)
  case (1 S tInSrc n endN lv rv r)
  show ?case
  proof (cases "n \<le> endN")
    case False
    then show ?thesis by (subst at_loop.simps) simp
  next
    case True
    from src_returns [OF "1.prems"] obtain res1 r1 where s: "src S n r = Some (res1, r1)"
      by (metis surj_pair)
    show ?thesis
    proof (cases res1)
      case (Inl e)
      with True s show ?thesis by (subst at_loop.simps) simp
    next
      case (Inr v)
      obtain srcL srcR where v: "v = (srcL, srcR)" by (cases v)
      show ?thesis
      proof (cases tInSrc)
        case None
        with True s Inr v show ?thesis by (subst at_loop.simps) simp
      next
        case (Some ts)
        show ?thesis
        proof (cases "weight (ts - real_of_int n)")
          case (Inl e)
          with True s Inr v Some show ?thesis by (subst at_loop.simps) simp
        next
          case w: (Inr sw)
          from "1.IH" [OF True s refl Inr v [symmetric] Some w "1.prems"]
          obtain y where "at_loop S tInSrc (n + 1) endN (lv + srcL * sw) (rv + srcR * sw) r1 = Some y"
            by blast
          with True s Inr v Some w show ?thesis by (subst at_loop.simps) simp
        qed
      qed
    qed
  qed
qed

lemma Resampling_at_returns:
  assumes "prompt S"
  shows "\<exists>y. Resampling_at S t r = Some y"
proof -
  obtain tInSrc startN endN where w: "window r t = (tInSrc, startN, endN)"
    by (cases "window r t") auto
  from at_loop_returns [OF assms] obtain res r' where
    "at_loop S tInSrc startN endN 0 0 r = Some (res, r')" by (metis surj_pair)
  with w show ?thesis by (cases res) (auto simp: Resampling_at_def)
qed

lemma Read_loop_returns:
  "prompt S \<Longrightarrow> \<exists>y. Read_loop S i n b r = Some y"
proof (induction S i n b r rule: Read_loop.induct)
  case (1 S i n b r)
  show ?case
  proof (cases "i < quot n 4")
    case False
    then show ?thesis by (subst Read_loop.simps) simp
  next
    case True
    from Resampling_at_returns [OF "1.prems"] obtain res1 r1
      where a: "Resampling_at S (quot (pos r) 4 + i) r = Some (res1, r1)" by (metis surj_pair)
    show ?thesis
    proof (cases res1)
      case (Inl e)
      with True a show ?thesis by (subst Read_loop.simps) simp
    next
      case (Inr v)
      obtain lv rv where v: "v = (lv, rv)" by (cases v)
      define l16 where "l16 = int16_of_float64 (lv * (2 ^ 15 - 1))"
      define r16 where "r16 = int16_of_float64 (rv * (2 ^ 15 - 1))"
      from "1.IH" [OF True a refl Inr v [symmetric] l16_def r16_def "1.prems"]
      obtain y where "Read_loop S (i + 1) n (putFrame (nat i) l16 r16 b) r1 = Some y" by blast
      with True a Inr v show ?thesis
        by (subst Read_loop.simps) (simp add: l16_def r16_def Let_def)
    qed
  qed
qed

lemma Resampling_Read_returns:
  assumes "prompt S"
  shows "\<exists>y. Resampling_Read S b r = Some y"
proof (cases "pos r = Length r")
  case True
  then show ?thesis by (simp add: Resampling_Read_def)
next
  case False
  define n where "n = (if wrap64 (Length r - pos r) \<le> quot (int (length b)) 4 * 4
      then wrap64 (Length r - pos r) else quot (int (length b)) 4 * 4)"
  from Read_loop_returns [OF assms] obtain e b' r' where
    "Read_loop S 0 n b r = Some ((e, b'), r')" by (metis surj_pair)
  with False show ?thesis
    by (cases e) (simp_all add: Resampling_Read_def Let_def n_def)
qed

lemma step_returns:
  assumes "prompt S"
  shows "\<exists>r'. step S x r = Some r'"
proof (cases x)
  case (Op_src i)
  with src_returns [OF assms, of i r] show ?thesis by auto
next
  case (Op_Read b)
  with Resampling_Read_returns [OF assms, of b r] show ?thesis by auto
next
  case (Op_Seek offset whence)
  then show ?thesis by simp
qed

lemma run_returns:
  assumes "prompt S"
  shows "\<exists>r'. run S xs r = Some r'"
proof (induction xs arbitrary: r)
  case Nil
  show ?case by simp
next
  case (Cons x xs)
  from step_returns [OF assms] obtain r1 where "step S x r = Some r1" by blast
  with Cons [of r1] show ?case by simp
qed

section \<open>The stream length\<close>

lemma scaled_size_bound:
  assumes "0 < (f :: int)" "a < 2 ^ k * f"
  shows "real_of_int a / real_of_int f < 2 ^ k"
proof -
  from assms(2) have "real_of_int a < real_of_int (2 ^ k * f)" by (simp only: of_int_less_iff)
  then have "real_of_int a < 2 ^ k * real_of_int f" by simp
  with assms(1) show ?thesis by (simp add: pos_divide_less_eq)
qed

text \<open>
  C7, as amended. For a stream with a non-negative source size, positive rates and a
  scaled size \<open>size * to / from\<close> below \<open>2^62\<close>, \<open>Length\<close> is non-negative and a multiple
  of 4. (It is a multiple of 4 for every stream, by \<open>Length_dvd\<close>. The bound leaves the
  rounding of the three float operations room below \<open>2^63\<close>.)
\<close>

theorem Length_nonneg_multiple_of_4:
  assumes "0 \<le> size' r" "0 < from' r" "0 < to' r"
    and "size' r * to' r < 2 ^ 62 * from' r"
  shows "0 \<le> Length r \<and> 4 dvd Length r"
proof -
  let ?q = "real_of_int (size' r) * real_of_int (to' r) / real_of_int (from' r)"
  have "?q = real_of_int (size' r * to' r) / real_of_int (from' r)" by simp
  also have "\<dots> < 2 ^ 62" using assms(2,4) by (rule scaled_size_bound)
  also have "\<dots> < (2 ^ 63 :: real)" by simp
  finally have b: "?q < 2 ^ 63" .
  have "0 \<le> ?q" using assms(1-3) by simp
  then have "0 \<le> \<lfloor>?q\<rfloor>" by simp
  then show ?thesis
    unfolding Length_in_range [OF assms(1-3) b] by (simp add: pos_imp_zdiv_nonneg_iff)
qed

theorem Length_nonneg_multiple_of_4_witness:
  "0 \<le> size' (NewResampling () 176400 44100 48000)
   \<and> 0 < from' (NewResampling () 176400 44100 48000)
   \<and> 0 < to' (NewResampling () 176400 44100 48000)
   \<and> Length (NewResampling () 176400 44100 48000) = 192000
   \<and> 0 \<le> Length (NewResampling () 176400 44100 48000)
   \<and> 4 dvd Length (NewResampling () 176400 44100 48000)"
proof -
  have "Length (NewResampling () 176400 44100 48000) = 192000"
    by (simp add: Length_def NewResampling_def float_div_def int64_of_float64_def trunc_def
        quot_def Let_def)
  then show ?thesis
    using Length_nonneg_multiple_of_4 [of "NewResampling () 176400 44100 48000"]
    by (simp add: NewResampling_def)
qed

text \<open>
  C7 as stated fails where the scaled size is not representable: a source of \<open>2^62\<close>
  bytes resampled from rate 1 to rate 4 has the scaled size \<open>2^64\<close>, the conversion gives
  the indefinite integer, and \<open>Length\<close> is \<open>- 2^63\<close>.
\<close>

theorem Length_negative_counterexample:
  "0 \<le> size' (NewResampling () (2 ^ 62) 1 4)
   \<and> 0 < from' (NewResampling () (2 ^ 62) 1 4)
   \<and> 0 < to' (NewResampling () (2 ^ 62) 1 4)
   \<and> \<not> 0 \<le> Length (NewResampling () (2 ^ 62) 1 4)"
  by (simp add: Length_def NewResampling_def float_div_def int64_of_float64_def trunc_def
      quot_def Let_def int64_indefinite_def)

section \<open>The cursor\<close>

text \<open>
  C1. \<open>Seek\<close> with the origin \<open>SeekEnd\<close> adds \<open>Length() + offset\<close> to the old cursor
  instead of setting the cursor to it: on a stream of length 100 with the cursor at 8,
  seeking to 8 bytes before the end returns 100, not 92.
\<close>

theorem Seek_end_adds_cursor:
  "Length (NewResampling () 100 1 1) = 100
   \<and> Resampling_Seek 8 SeekStart (NewResampling () 100 1 1)
       = ((8, None), (NewResampling () 100 1 1)\<lparr>pos := 8\<rparr>)
   \<and> fst (Resampling_Seek (- 8) SeekEnd ((NewResampling () 100 1 1)\<lparr>pos := 8\<rparr>)) = (100, None)"
  by (simp add: Resampling_Seek_def Length_def NewResampling_def float_div_def
      int64_of_float64_def trunc_def quot_def Let_def SeekStart_def SeekEnd_def SeekCurrent_def
      wrap64_def)

text \<open>
  C6, as amended. For a stream whose \<open>Length\<close> is not negative: the cursor is in
  \<open>[0, Length]\<close> after construction and after every sequence of calls of \<open>src\<close>, \<open>Read\<close>
  and \<open>Seek\<close> that return; a \<open>Seek\<close> from the start or from the current position, whose
  target is \<open>offset\<close> or the 64-bit sum of cursor and \<open>offset\<close>, sets the cursor to 0 when the
  target is negative, to \<open>Length\<close> when the target is \<open>Length\<close> or more, and to the target
  otherwise, and reports no error; and \<open>Read\<close> moves the cursor forward and not past
  \<open>Length\<close>.
\<close>

theorem cursor_in_range:
  "(0 \<le> Length (NewResampling st sz f t) \<and> run S ops (NewResampling st sz f t) = Some r
      \<longrightarrow> 0 \<le> pos r \<and> pos r \<le> Length r)
   \<and> (0 \<le> Length q \<and> (whence = SeekStart \<or> whence = SeekCurrent)
        \<and> target = (if whence = SeekStart then offset else wrap64 (pos q + offset))
      \<longrightarrow> Resampling_Seek offset whence q
            = (let p = (if target < 0 then 0 else if Length q \<le> target then Length q else target)
               in ((p, None), q\<lparr>pos := p\<rparr>)))
   \<and> (0 \<le> pos u \<and> pos u \<le> Length u \<and> Resampling_Read S b u = Some ((n, err, b'), u')
      \<longrightarrow> pos u \<le> pos u' \<and> pos u' \<le> Length u' \<and> Length u' = Length u)"
proof (intro conjI impI)
  assume a: "0 \<le> Length (NewResampling st sz f t) \<and> run S ops (NewResampling st sz f t) = Some r"
  have "cursor_inv (NewResampling st sz f t)"
    using a by (simp add: cursor_inv_def) (simp add: NewResampling_def)
  with a run_stable [of S ops "NewResampling st sz f t" r] have "cursor_inv r"
    by (simp add: stable_def)
  then show "0 \<le> pos r" "pos r \<le> Length r" by (simp_all add: cursor_inv_def)
next
  assume "0 \<le> Length q \<and> (whence = SeekStart \<or> whence = SeekCurrent)
        \<and> target = (if whence = SeekStart then offset else wrap64 (pos q + offset))"
  then show "Resampling_Seek offset whence q
            = (let p = (if target < 0 then 0 else if Length q \<le> target then Length q else target)
               in ((p, None), q\<lparr>pos := p\<rparr>))"
    unfolding Seek_result by (auto simp: Let_def SeekStart_def SeekCurrent_def)
next
  assume "0 \<le> pos u \<and> pos u \<le> Length u \<and> Resampling_Read S b u = Some ((n, err, b'), u')"
  then have "pos u \<le> pos u' \<and> pos u' \<le> Length u' \<and> Length u' = Length u"
    using Read_cursor [of u S b n err b' u'] by (simp add: cursor_inv_def)
  then show "pos u \<le> pos u'" "pos u' \<le> Length u'" "Length u' = Length u" by simp_all
qed

theorem cursor_in_range_witness:
  "0 \<le> Length (NewResampling () 8 1 1)
   \<and> (\<exists>r. run \<lparr>Read = \<lambda>n s. (([1, 2, 3, 4], Some EOF), s),
       Seek = \<lambda>offset whence s. ((offset, None), s), Close = \<lambda>s. (None, s)\<rparr>
          [Op_Read (replicate 8 0), Op_Seek (- 4) SeekEnd, Op_src 1] (NewResampling () 8 1 1) = Some r
        \<and> 0 \<le> pos r \<and> pos r \<le> Length r)
   \<and> Resampling_Seek 100 SeekCurrent ((NewResampling () 8 1 1)\<lparr>pos := 4\<rparr>)
       = ((8, None), (NewResampling () 8 1 1)\<lparr>pos := 8\<rparr>)
   \<and> (\<exists>n err b' u'. Resampling_Read \<lparr>Read = \<lambda>n s. (([1, 2, 3, 4], Some EOF), s),
       Seek = \<lambda>offset whence s. ((offset, None), s), Close = \<lambda>s. (None, s)\<rparr>
          (replicate 8 0) (NewResampling () 8 1 1) = Some ((n, err, b'), u')
        \<and> pos (NewResampling () 8 1 1) \<le> pos u' \<and> pos u' \<le> Length u')"
proof -
  let ?S = "\<lparr>Read = \<lambda>n s. (([1, 2, 3, 4], Some EOF), s),
       Seek = \<lambda>offset whence s. ((offset, None), s), Close = \<lambda>s. (None, s)\<rparr> :: unit ReadSeekCloser"
  let ?r0 = "NewResampling () 8 1 1 :: unit Resampling"
  let ?ops = "[Op_Read (replicate 8 0), Op_Seek (- 4) SeekEnd, Op_src 1]"
  have p: "prompt ?S" by (simp add: prompt_def)
  have L: "Length ?r0 = 8"
    by (simp add: Length_def NewResampling_def float_div_def int64_of_float64_def trunc_def
        quot_def Let_def)
  have L4: "Length (?r0\<lparr>pos := 4\<rparr>) = 8"
    by (simp add: Length_def NewResampling_def float_div_def int64_of_float64_def trunc_def
        quot_def Let_def)
  from run_returns [OF p, of ?ops ?r0] obtain r where r: "run ?S ?ops ?r0 = Some r" by blast
  from Resampling_Read_returns [OF p, of "replicate 8 0" ?r0] obtain n err b' u'
    where u: "Resampling_Read ?S (replicate 8 0) ?r0 = Some ((n, err, b'), u')"
    by (metis surj_pair)
  have p0: "pos ?r0 = 0" by (simp add: NewResampling_def)
  note inst = cursor_in_range [where st = "()" and sz = 8 and f = 1 and t = 1 and S = ?S
      and ops = ?ops and r = r and q = "?r0\<lparr>pos := 4\<rparr>" and whence = SeekCurrent
      and offset = 100 and target = 104 and u = ?r0 and b = "replicate 8 0" and n = n
      and err = err and b' = b' and u' = u']
  have w: "wrap64 104 = 104" by (simp add: wrap64_def)
  from inst r u L L4 p0 w have
    "0 \<le> pos r \<and> pos r \<le> Length r"
    "Resampling_Seek 100 SeekCurrent (?r0\<lparr>pos := 4\<rparr>) = ((8, None), ?r0\<lparr>pos := 8\<rparr>)"
    "pos ?r0 \<le> pos u' \<and> pos u' \<le> Length u'"
    by (simp_all add: Let_def SeekCurrent_def SeekStart_def)
  with r u L show ?thesis by auto
qed

text \<open>
  C6 as stated fails for a stream whose \<open>Length\<close> is negative: with a source size of
  \<open>- 8\<close> the cursor of the new stream, 0, is above \<open>Length\<close>.
\<close>

theorem cursor_outside_negative_length:
  "\<not> (0 \<le> pos (NewResampling () (- 8) 1 1)
      \<and> pos (NewResampling () (- 8) 1 1) \<le> Length (NewResampling () (- 8) 1 1))"
  by (simp add: Length_def NewResampling_def float_div_def int64_of_float64_def trunc_def
      quot_def Let_def)

section \<open>The cache\<close>

text \<open>
  C5. After every sequence of calls of \<open>src\<close>, \<open>Read\<close> and \<open>Seek\<close> on a new stream that
  return (with an error or without), each of the two maps holds at most 4 blocks, no
  index is twice in the list, and the indices in the list are the keys of either map.
\<close>

theorem cache_at_most_four:
  assumes "run S ops (NewResampling st sz f t) = Some r"
  shows "card (dom (srcBufL r)) \<le> 4 \<and> card (dom (srcBufR r)) \<le> 4
         \<and> distinct (lruSrcBlocks r)
         \<and> set (lruSrcBlocks r) = dom (srcBufL r)
         \<and> set (lruSrcBlocks r) = dom (srcBufR r)"
proof -
  from run_stable [OF assms] cache_inv_New [of st sz f t] have inv: "cache_inv r"
    by (simp add: stable_def)
  then have "card (set (lruSrcBlocks r)) \<le> 4"
    using card_length [of "lruSrcBlocks r"] by (simp add: cache_inv_def)
  with inv show ?thesis by (simp add: cache_inv_def)
qed

theorem cache_at_most_four_witness:
  "\<exists>r. run \<lparr>Read = \<lambda>n s. (([1, 2, 3, 4], Some EOF), s),
       Seek = \<lambda>offset whence s. ((offset, None), s), Close = \<lambda>s. (None, s)\<rparr>
         [Op_Read (replicate 8 0), Op_Seek (- 4) SeekEnd, Op_src 1, Op_src 0]
         (NewResampling () 8 1 1) = Some r
       \<and> card (dom (srcBufL r)) \<le> 4 \<and> card (dom (srcBufR r)) \<le> 4
       \<and> distinct (lruSrcBlocks r)
       \<and> set (lruSrcBlocks r) = dom (srcBufL r)
       \<and> set (lruSrcBlocks r) = dom (srcBufR r)"
proof -
  let ?S = "\<lparr>Read = \<lambda>n s. (([1, 2, 3, 4], Some EOF), s),
       Seek = \<lambda>offset whence s. ((offset, None), s), Close = \<lambda>s. (None, s)\<rparr> :: unit ReadSeekCloser"
  let ?ops = "[Op_Read (replicate 8 0), Op_Seek (- 4) SeekEnd, Op_src 1, Op_src 0]"
  have "prompt ?S" by (simp add: prompt_def)
  from run_returns [OF this, of ?ops "NewResampling () 8 1 1"]
  obtain r where r: "run ?S ?ops (NewResampling () 8 1 1) = Some r" by blast
  from cache_at_most_four [OF r] r show ?thesis by blast
qed



section \<open>The interpolator\<close>

lemma at_loop_steps:
  "at_loop S tInSrc n endN lv rv r = at_steps S tInSrc [n..endN] lv rv r"
proof (induction S tInSrc n endN lv rv r rule: at_loop.induct)
  case (1 S tInSrc n endN lv rv r)
  show ?case
  proof (cases "n \<le> endN")
    case False
    then show ?thesis by (subst at_loop.simps) simp
  next
    case True
    then have u: "[n..endN] = n # [n + 1..endN]" by (simp add: upto_rec1)
    show ?thesis
      unfolding u
      apply (subst at_loop.simps)
      using True "1.IH"
      by (auto split: option.splits sum.splits prod.splits)
  qed
qed

lemma window_in_range:
  assumes "0 \<le> t" "0 < from' r" "0 < to' r" "1 \<le> quot (size' r) 4"
    and "real_of_int t * real_of_int (from' r) / real_of_int (to' r) + 8 < 2 ^ 63"
  shows "window r t =
     (let tSrc = real_of_int t * real_of_int (from' r) / real_of_int (to' r);
          frames = quot (size' r) 4
      in (Some tSrc, max 0 (min (frames - 1) \<lfloor>tSrc - 8\<rfloor>), min (frames - 1) \<lfloor>tSrc + 8\<rfloor>))"
proof -
  define x where "x = real_of_int t * real_of_int (from' r) / real_of_int (to' r)"
  have x0: "0 \<le> x" using assms(1-3) by (simp add: x_def)
  have fd: "float_div (real_of_int t * real_of_int (from' r)) (real_of_int (to' r)) = Some x"
    using assms(3) by (simp add: float_div_def x_def)
  have hi: "\<lfloor>x + 8\<rfloor> < 2 ^ 63" using assms(5) by (simp add: x_def floor_less_iff)
  have hi0: "8 \<le> \<lfloor>x + 8\<rfloor>" using x0 by (simp add: le_floor_iff)
  have e: "int64_of_float64 (Some (x + windowSize)) = \<lfloor>x + 8\<rfloor>"
    using hi hi0 x0 by (simp add: int64_of_float64_def trunc_def windowSize_def)
  have lo1: "- 8 \<le> trunc (x - 8)" using x0 by (auto simp: trunc_def le_floor_iff le_ceiling_iff)
  have lo2: "trunc (x - 8) \<le> \<lfloor>x + 8\<rfloor>"
    using x0 by (auto simp: trunc_def intro: floor_mono ceiling_le) linarith
  have lo3: "trunc (x - 8) < 2 ^ 63" using lo2 hi by linarith
  have "- (2 ^ 63) \<le> (- 8 :: int)" by simp
  from this lo1 have lo4: "- (2 ^ 63) \<le> trunc (x - 8)" by (rule order_trans)
  have s: "int64_of_float64 (Some (x - windowSize)) = trunc (x - 8)"
    unfolding int64_of_float64_def windowSize_def option.case using lo3 lo4 by simp
  have m: "(if trunc (x - 8) < 0 then 0 else trunc (x - 8)) = max 0 \<lfloor>x - 8\<rfloor>"
    by (auto simp: trunc_def max_def) linarith+
  define lo where "lo = \<lfloor>x - 8\<rfloor>"
  define hi where "hi = \<lfloor>x + 8\<rfloor>"
  define F where "F = quot (size' r) 4"
  have F1: "1 \<le> F" using assms(4) by (simp add: F_def)
  have a: "(if F \<le> max 0 lo then F - 1 else max 0 lo) = max 0 (min (F - 1) lo)"
    using F1 by (auto simp: max_def min_def)
  have b: "(if F \<le> hi then F - 1 else hi) = min (F - 1) hi"
    by (auto simp: min_def)
  have "window r t = (Some x, (if F \<le> max 0 lo then F - 1 else max 0 lo), (if F \<le> hi then F - 1 else hi))"
    unfolding window_def Let_def fd option.map s e m
    by (simp only: lo_def hi_def F_def)
  then show ?thesis
    unfolding a b by (simp only: Let_def lo_def hi_def F_def x_def)
qed

text \<open>
  C3, as amended. For an output frame \<open>t \<ge> 0\<close> of a stream with positive rates and at
  least one source frame, and \<open>t * from + 8 * to\<close> below \<open>2^52\<close>: the loop of \<open>at\<close> runs
  from \<open>startN\<close> to \<open>endN\<close>, the floors of \<open>tSrc - 8\<close> and \<open>tSrc + 8\<close> clamped into
  \<open>[0, frames - 1]\<close>, and \<open>at\<close> returns the sums over exactly the frames
  \<open>startN, \<dots>, endN\<close>, clamped to \<open>[-1, 1]\<close>. (Below the bound the product is exact in
  \<open>float64\<close> and the quotient too close to its real value for a truncation to differ.)
\<close>

theorem at_sums_over_window:
  assumes "0 \<le> t" "0 < from' r" "0 < to' r" "1 \<le> quot (size' r) 4"
    and "t * from' r + 8 * to' r < 2 ^ 52"
  shows "(let tSrc = real_of_int t * real_of_int (from' r) / real_of_int (to' r);
              frames = quot (size' r) 4;
              startN = max 0 (min (frames - 1) \<lfloor>tSrc - 8\<rfloor>);
              endN = min (frames - 1) \<lfloor>tSrc + 8\<rfloor>
          in window r t = (Some tSrc, startN, endN)
             \<and> Resampling_at S t r =
                 (case at_steps S (Some tSrc) [startN..endN] 0 0 r of
                    None \<Rightarrow> None
                  | Some (Inl e, r') \<Rightarrow> Some (Inl e, r')
                  | Some (Inr (lv, rv), r') \<Rightarrow> Some (Inr (clamp1 lv, clamp1 rv), r')))"
proof -
  let ?q = "real_of_int t * real_of_int (from' r) / real_of_int (to' r)"
  have "t * from' r + 8 * to' r < 2 ^ 52 * to' r"
  proof -
    have "(2 ^ 52 :: int) * 1 \<le> 2 ^ 52 * to' r" using assms(3) by (intro mult_left_mono) simp_all
    with assms(5) show ?thesis by simp
  qed
  with assms(3) have "real_of_int (t * from' r + 8 * to' r) / real_of_int (to' r) < 2 ^ 52"
    by (rule scaled_size_bound)
  moreover have "real_of_int (t * from' r + 8 * to' r) / real_of_int (to' r) = ?q + 8"
    using assms(3) by (simp add: field_simps)
  ultimately have "?q + 8 < 2 ^ 52" by simp
  also have "\<dots> < (2 ^ 63 :: real)" by simp
  finally have b: "?q + 8 < 2 ^ 63" .
  show ?thesis
    unfolding Resampling_at_def window_in_range [OF assms(1-4) b] Let_def
    by (simp add: at_loop_steps)
qed

theorem at_sums_over_window_witness:
  "(0::int) \<le> 1 \<and> 0 < from' (NewResampling () 400 1 4) \<and> 0 < to' (NewResampling () 400 1 4)
   \<and> 1 \<le> quot (size' (NewResampling () 400 1 4)) 4
   \<and> 1 * from' (NewResampling () 400 1 4) + 8 * to' (NewResampling () 400 1 4) < 2 ^ 52
   \<and> window (NewResampling () 400 1 4) 1 = (Some (1 / 4), 0, 8)
   \<and> Resampling_at \<lparr>Read = \<lambda>n s. (([1, 2, 3, 4], Some EOF), s),
          Seek = \<lambda>offset whence s. ((offset, None), s), Close = \<lambda>s. (None, s)\<rparr> 1
        (NewResampling () 400 1 4) =
       (case at_steps \<lparr>Read = \<lambda>n s. (([1, 2, 3, 4], Some EOF), s),
          Seek = \<lambda>offset whence s. ((offset, None), s), Close = \<lambda>s. (None, s)\<rparr>
          (Some (1 / 4)) [0..8] 0 0 (NewResampling () 400 1 4) of
          None \<Rightarrow> None
        | Some (Inl e, r') \<Rightarrow> Some (Inl e, r')
        | Some (Inr (lv, rv), r') \<Rightarrow> Some (Inr (clamp1 lv, clamp1 rv), r'))"
proof -
  have q: "quot (size' (NewResampling () 400 1 4)) 4 = 100"
    by (simp add: quot_def NewResampling_def)
  have f: "from' (NewResampling () 400 1 4) = 1" "to' (NewResampling () 400 1 4) = 4"
    by (simp_all add: NewResampling_def)
  show ?thesis
    using at_sums_over_window [of 1 "NewResampling () 400 1 4"
        "\<lparr>Read = \<lambda>n s. (([1, 2, 3, 4], Some EOF), s),
          Seek = \<lambda>offset whence s. ((offset, None), s), Close = \<lambda>s. (None, s)\<rparr>"]
    unfolding q f Let_def by simp
qed

text \<open>
  C3 as stated fails: the upper end is the floor of \<open>tSrc + 8\<close>, not its ceiling. For
  output frame 1 of a stream of 100 source frames resampled from rate 1 to rate 4,
  \<open>tSrc = 1/4\<close>; the loop runs over the frames 0 to 8, the window of the claim is 0 to 9.
\<close>

theorem at_window_counterexample:
  "snd (window (NewResampling () 400 1 4) 1) = (0, 8)
   \<and> spec_window (NewResampling () 400 1 4) 1 = (0, 9)"
proof -
  have "\<lceil>1 / 4 :: real\<rceil> = 1" by (rule ceiling_unique) simp_all
  then show ?thesis
    by (simp add: window_def spec_window_def NewResampling_def float_div_def
        int64_of_float64_def trunc_def quot_def windowSize_def Let_def)
qed

lemma cos01q_on_grid:
  assumes "262144 * x \<in> \<int>"
  shows "cos01q x = cos (2 * pi * x)"
proof -
  from assms have "\<bar>262144 * x\<bar> \<in> \<int>" by simp
  then have "262144 * \<bar>x\<bar> \<in> \<int>" by (simp add: abs_mult)
  then obtain n where n: "262144 * \<bar>x\<bar> = real_of_int n" by (rule Ints_cases)
  then have "real_of_int \<lfloor>262144 * \<bar>x\<bar>\<rfloor> = 262144 * \<bar>x\<bar>" by simp
  then have "cos01q x = cos (262144 * \<bar>x\<bar> * pi / 131072)" by (simp only: cos01q_def)
  also have "262144 * \<bar>x\<bar> * pi / 131072 = \<bar>2 * pi * x\<bar>" by (simp add: abs_mult)
  also have "cos \<bar>2 * pi * x\<bar> = cos (2 * pi * x)" by (rule cos_abs_real)
  finally show ?thesis .
qed

lemma cos_quarter_shift: "cos (2 * pi * (d / 2 - 1 / 4)) = sin (pi * d)"
proof -
  have "2 * pi * (d / 2 - 1 / 4) = pi * d - pi / 2" by (simp add: field_simps)
  then show ?thesis by (simp add: cos_diff)
qed

lemma weight_quantised:
  assumes "\<bar>d\<bar> \<le> 2 ^ 40"
  shows "weight d =
     Inr ((if \<bar>float64 (d / 2)\<bar> < float64 (1 / 10 ^ 8) then 1
           else cos01q (float64 (float64 (d / 2) - 1 / 4)) / (float64 (d / 2) * 2 * pi))
          * (0.5 + 0.5 * cos01q (float64 (d / 17))))"
proof -
  have "\<bar>float64 (d / 17)\<bar> \<le> 2 * \<bar>d / 17\<bar> + 1" by (rule float64_bound)
  also have "\<dots> \<le> 2 * \<bar>d\<bar> + 1" by (simp add: abs_divide)
  also have "\<dots> \<le> 2 * 2 ^ 40 + 1" using assms by simp
  finally have "262144 * \<bar>float64 (d / 17)\<bar> \<le> 262144 * (2 * 2 ^ 40 + 1)" by simp
  also have "\<dots> < (2 ^ 63 :: real)" by simp
  finally have w: "fastCos01 (float64 (d / 17)) = Inr (cos01q (float64 (d / 17)))"
    unfolding cos01q_def by (rule fastCos01_quantised)
  define h where "h = float64 (d / 2)"
  have "\<bar>h\<bar> \<le> 2 * \<bar>d / 2\<bar> + 1" unfolding h_def by (rule float64_bound)
  then have h: "\<bar>h\<bar> \<le> 2 ^ 40 + 1" using assms by simp
  have "\<bar>float64 (h - 1 / 4)\<bar> \<le> 2 * \<bar>h - 1 / 4\<bar> + 1" by (rule float64_bound)
  also have "\<dots> \<le> 2 * (2 ^ 40 + 2) + 1" using h by (simp add: abs_if split: if_splits)
  finally have "262144 * \<bar>float64 (h - 1 / 4)\<bar> \<le> 262144 * (2 * (2 ^ 40 + 2) + 1)" by simp
  also have "\<dots> < (2 ^ 63 :: real)" by simp
  finally have s: "fastCos01 (float64 (h - 1 / 4)) = Inr (cos01q (float64 (h - 1 / 4)))"
    unfolding cos01q_def by (rule fastCos01_quantised)
  show ?thesis
    by (simp add: weight_def windowSize_def w sinc01_def fastSin01_def s h_def [symmetric])
qed

text \<open>
  C4, as amended. For \<open>\<bar>d\<bar> \<le> 2^40\<close> the weight of the frame at offset \<open>d\<close> is
  \<open>sinc01(h) * w\<close>, where \<open>h\<close> is \<open>d/2\<close> and \<open>p\<close> is \<open>d/17\<close> as \<open>float64\<close> division rounds
  them, \<open>w = 0.5 + 0.5 c(p)\<close>, and \<open>sinc01(h) = c(h - 1/4) / (2 \<pi> h)\<close>, the difference
  rounded to \<open>float64\<close>, or 1 when \<open>\<bar>h\<bar>\<close> is below the \<open>float64\<close> nearest to \<open>10^-8\<close>. Here
  \<open>c\<close> is \<open>cos01q\<close>, the cosine of a phase in periods at the table's resolution. \<open>c(x)\<close> is
  \<open>cos(2 \<pi> x)\<close> for a phase on the table's grid, and \<open>cos(2 \<pi> (d/2 - 1/4)) = sin(\<pi> d)\<close>:
  with the table and the rounding taken as exact, the taper is \<open>0.5 + 0.5 cos(2 \<pi> d / 17)\<close>
  and the kernel \<open>sin(\<pi> d) / (\<pi> d)\<close>.
\<close>

theorem weight_formula:
  assumes "\<bar>d\<bar> \<le> 2 ^ 40"
  shows "weight d =
           Inr ((if \<bar>float64 (d / 2)\<bar> < float64 (1 / 10 ^ 8) then 1
                 else cos01q (float64 (float64 (d / 2) - 1 / 4)) / (float64 (d / 2) * 2 * pi))
                * (0.5 + 0.5 * cos01q (float64 (d / 17))))
         \<and> (262144 * x \<in> \<int> \<longrightarrow> cos01q x = cos (2 * pi * x))
         \<and> cos (2 * pi * (d / 2 - 1 / 4)) = sin (pi * d)"
  using weight_quantised [OF assms] cos01q_on_grid [of x] cos_quarter_shift [of d] by blast

text \<open>
  At \<open>d = 2^-17 + 2^-69\<close> the rounding of the subtraction decides the table entry:
  \<open>d/2 - 1/4\<close> rounds to \<open>-65535/262144\<close>, so that entry 65535 is read (the exact difference
  is truncated to 65534); the phase of the taper is truncated to entry 0.
\<close>

theorem weight_formula_witness:
  "\<bar>1 / 2 ^ 17 + 1 / 2 ^ 69 :: real\<bar> \<le> 2 ^ 40
   \<and> weight (1 / 2 ^ 17 + 1 / 2 ^ 69) =
       Inr (cos (65535 * pi / 131072) / ((1 / 2 ^ 18 + 1 / 2 ^ 70) * 2 * pi))
   \<and> 262144 * (1 / 4 :: real) \<in> \<int>
   \<and> cos01q (1 / 4) = cos (2 * pi * (1 / 4))"
proof -
  have i: "262144 * (1 / 4 :: real) \<in> \<int>" by simp
  have a: "\<bar>1 / 2 ^ 17 + 1 / 2 ^ 69 :: real\<bar> \<le> 2 ^ 40" by simp
  have h: "float64 ((1 / 2 ^ 17 + 1 / 2 ^ 69) / 2) = 1 / 2 ^ 18 + 1 / 2 ^ 70" by code_simp
  have s: "float64 (1 / 2 ^ 18 + 1 / 2 ^ 70 - 1 / 4) = - (65535 / 262144)" by code_simp
  have w: "float64 ((1 / 2 ^ 17 + 1 / 2 ^ 69) / 17) = 8477364004462112 / 2 ^ 74" by code_simp
  have t: "\<not> \<bar>1 / 2 ^ 18 + 1 / 2 ^ 70 :: real\<bar> < float64 (1 / 10 ^ 8)" by code_simp
  have q1: "cos01q (- (65535 / 262144)) = cos (65535 * pi / 131072)" by (simp add: cos01q_def)
  have "\<lfloor>262144 * \<bar>8477364004462112 / 2 ^ 74 :: real\<bar>\<rfloor> = 0" by (rule floor_unique) simp_all
  then have q2: "cos01q (8477364004462112 / 2 ^ 74) = 1" by (simp only: cos01q_def) simp
  from weight_formula [OF a, of "1 / 4"] i a show ?thesis
    unfolding h s w q1 q2 using t by simp
qed

text \<open>
  C4 as stated fails: both phases of the claim are half those of the code. At \<open>d = 1\<close>
  the code's weight is 0 (the kernel is \<open>sin(\<pi>)/\<pi>\<close>, and the table returns 0 at a quarter
  period), the weight of the claim is \<open>sin(\<pi>/2)/\<pi>\<close> times a positive taper. Every
  operation on the way is exact in \<open>float64\<close>, but for \<open>1/17\<close>, whose table entry does not
  matter.
\<close>

theorem weight_counterexample:
  "weight 1 = Inr 0 \<and> spec_weight 1 = 1 / pi * (1 / 2 + cos (pi / 17) / 2) \<and> 0 < spec_weight 1"
proof -
  have c: "fastCos01 (1 / 4) = Inr 0"
    by (simp add: fastCos01_def int64_of_float64_def trunc_def cosTable_len_def cosTable_def Let_def)
  have h: "float64 (1 / 2) = 1 / 2" by code_simp
  have q: "float64 (1 / 4) = 1 / 4" by code_simp
  have t: "\<not> 1 < float64 (1 / 100000000) * 2" by code_simp
  have "\<bar>float64 (1 / 17)\<bar> \<le> 2 * \<bar>1 / 17\<bar> + 1" by (rule float64_bound)
  then have "262144 * \<bar>float64 (1 / 17)\<bar> < 2 ^ 63" by simp
  from fastCos01_quantised [OF this] obtain v where v: "fastCos01 (float64 (1 / 17)) = Inr v"
    by blast
  have w: "weight 1 = Inr 0"
    by (simp add: weight_def windowSize_def v sinc01_def fastSin01_def c h q t)
  have s: "spec_weight 1 = 1 / pi * (1 / 2 + cos (pi / 17) / 2)"
    by (simp add: spec_weight_def spec_sinc_half_def spec_window_fn_def)
  have "- (pi / 2) < pi / 17" "pi / 17 < pi / 2" using pi_gt_zero by linarith+
  then have "0 < cos (pi / 17)" by (rule cos_gt_zero_pi)
  then have "0 < 1 / pi * (1 / 2 + cos (pi / 17) / 2)" by (simp add: pi_gt_zero add_pos_pos)
  with w s show ?thesis by simp
qed

section \<open>The normaliser\<close>

lemma int16le_bytes: "int16le (ucast v) (ucast (signed_drop_bit 8 v)) = (v :: 16 word)"
  unfolding int16le_def
proof (rule bit_word_eqI)
  fix n :: nat
  assume "n < LENGTH(16)"
  then have n: "n < 16" by simp
  show "bit (ucast (ucast v :: 8 word) OR push_bit 8 (ucast (ucast (signed_drop_bit 8 v) :: 8 word)) :: 16 word) n
      \<longleftrightarrow> bit v n"
  proof (cases "n < 8")
    case True
    then show ?thesis by (auto simp: bit_simps)
  next
    case False
    then have "8 + (n - 8) = n" by simp
    with False n show ?thesis by (auto simp: bit_simps)
  qed
qed

lemma sint_expand8: "sint (expand8 x) = uint x * 257 - 32768"
proof -
  have "uint x < 256" using uint_bounded [of x] by simp
  moreover have "0 \<le> uint x" by simp
  ultimately have "- (2 ^ 15) \<le> uint x * 257 - 32768" "uint x * 257 - 32768 < 2 ^ 15" by simp_all
  then have "signed_take_bit 15 (uint x * 257 - 32768) = uint x * 257 - 32768"
    by (rule signed_take_bit_int_eq_self)
  moreover have "sint (word_of_int k :: 16 word) = signed_take_bit 15 k" for k
    by (simp only: sint_sbintrunc') simp
  moreover have "(2 :: int) ^ 15 = 32768" by simp
  ultimately show ?thesis unfolding expand8_def by (simp only:)
qed

lemma put4_frame:
  assumes "4 * i + 3 < length b"
  shows "\<exists>b'. put4 i (ucast l) (ucast (signed_drop_bit 8 l)) (ucast r) (ucast (signed_drop_bit 8 r)) b = Inr b'
           \<and> length b' = length b \<and> frame_is b' i l r \<and> (\<forall>k<4 * i. b' ! k = b ! k)"
  using assms by (simp add: put4_def frame_is_def int16le_bytes)

lemma mono8_loop_frames:
  "n \<le> length buf \<Longrightarrow> 4 * n \<le> length b \<Longrightarrow>
   \<exists>b'. mono8_loop i n buf b = Inr b' \<and> length b' = length b
        \<and> (\<forall>j. i \<le> j \<and> j < n \<longrightarrow> frame_is b' j (expand8 (buf ! j)) (expand8 (buf ! j)))
        \<and> (\<forall>k<4 * i. b' ! k = b ! k)"
proof (induction i n buf b rule: mono8_loop.induct)
  case (1 i n buf b)
  show ?case
  proof (cases "i < n")
    case False
    then have "mono8_loop i n buf b = Inr b" by (subst mono8_loop.simps) simp
    moreover from False have "\<not> (i \<le> j \<and> j < n)" for j by auto
    ultimately show ?thesis by auto
  next
    case True
    with "1.prems" have ib: "i < length buf" and bb: "4 * i + 3 < length b" by simp_all
    define v where "v = expand8 (buf ! i)"
    from put4_frame [OF bb, of v v] obtain b1 where
      p: "put4 i (ucast v) (ucast (signed_drop_bit 8 v)) (ucast v) (ucast (signed_drop_bit 8 v)) b = Inr b1"
      and l1: "length b1 = length b" and f1: "frame_is b1 i v v" and k1: "\<forall>k<4 * i. b1 ! k = b ! k"
      by blast
    from "1.IH" [OF True ib v_def p] "1.prems" l1 obtain b' where
      m: "mono8_loop (i + 1) n buf b1 = Inr b'" and l': "length b' = length b1"
      and f': "\<forall>j. i + 1 \<le> j \<and> j < n \<longrightarrow> frame_is b' j (expand8 (buf ! j)) (expand8 (buf ! j))"
      and k': "\<forall>k<4 * (i + 1). b' ! k = b1 ! k" by auto
    have eq: "mono8_loop i n buf b = Inr b'"
      using True ib p m by (subst mono8_loop.simps) (simp add: Let_def v_def)
    have fi: "frame_is b' i v v"
      using f1 k' by (simp add: frame_is_def)
    have "frame_is b' j (expand8 (buf ! j)) (expand8 (buf ! j))" if "i \<le> j" "j < n" for j
    proof (cases "j = i")
      case True
      with fi show ?thesis by (simp add: v_def)
    next
      case False
      with that f' show ?thesis by simp
    qed
    moreover have "b' ! k = b ! k" if "k < 4 * i" for k
      using that k' k1 by simp
    ultimately show ?thesis using eq l' l1 by auto
  qed
qed

text \<open>
  C2, as amended. In mono 8-bit mode, when the source stores the bytes \<open>d\<close> (no more than
  the quarter of the buffer asked for) and reports no error or \<open>EOF\<close>, \<open>Read\<close> returns four
  times their number, and frame \<open>i\<close> of the buffer holds on both channels the 16-bit sample
  \<open>d[i] * 257 - 32768\<close>; a byte of value 128 gives the sample 128.
\<close>

theorem mono8_read:
  assumes "mono s" "eight s"
    and "Read S (length b div 2 div 2) (source16 s) = ((d, err), st)"
    and "length d \<le> length b div 2 div 2"
    and "err = None \<or> err = Some EOF"
  shows "\<exists>b'. Stereo16_Read S b s = (Inr (length d * 2 * 2, err, b'), s\<lparr>source16 := st\<rparr>)
           \<and> length b' = length b
           \<and> (\<forall>i<length d.
                 sint (int16le (b' ! (4 * i)) (b' ! (4 * i + 1))) = uint (d ! i) * 257 - 32768
                 \<and> sint (int16le (b' ! (4 * i + 2)) (b' ! (4 * i + 3))) = uint (d ! i) * 257 - 32768
                 \<and> (d ! i = 128 \<longrightarrow>
                      sint (int16le (b' ! (4 * i)) (b' ! (4 * i + 1))) = 128
                      \<and> sint (int16le (b' ! (4 * i + 2)) (b' ! (4 * i + 3))) = 128))"
proof -
  define l where "l = length b div 2 div 2"
  define buf where "buf = take l d @ replicate (l - length d) (0 :: byte)"
  have lb: "length buf = l" using assms(4) by (simp add: buf_def l_def)
  have nb: "buf ! i = d ! i" if "i < length d" for i
    using that assms(4) by (simp add: buf_def l_def nth_append)
  have n1: "length d \<le> length buf" using assms(4) lb by (simp add: l_def)
  have n2: "4 * length d \<le> length b" using assms(4) by (simp add: l_def)
  from mono8_loop_frames [OF n1 n2, of 0] obtain b' where
    m: "mono8_loop 0 (length d) buf b = Inr b'" and l': "length b' = length b"
    and f: "\<forall>j. j < length d \<longrightarrow> frame_is b' j (expand8 (buf ! j)) (expand8 (buf ! j))"
    by auto
  have rd: "Stereo16_Read S b s = (Inr (length d * 2 * 2, err, b'), s\<lparr>source16 := st\<rparr>)"
    using assms(1,2,5) assms(3) [folded l_def] m [unfolded buf_def]
    by (auto simp: Stereo16_Read_def Let_def l_def [symmetric])
  have fr: "sint (int16le (b' ! (4 * i)) (b' ! (4 * i + 1))) = uint (d ! i) * 257 - 32768
         \<and> sint (int16le (b' ! (4 * i + 2)) (b' ! (4 * i + 3))) = uint (d ! i) * 257 - 32768"
    if "i < length d" for i
    using f that nb [OF that] by (simp add: frame_is_def sint_expand8)
  have "\<forall>i<length d.
           sint (int16le (b' ! (4 * i)) (b' ! (4 * i + 1))) = uint (d ! i) * 257 - 32768
           \<and> sint (int16le (b' ! (4 * i + 2)) (b' ! (4 * i + 3))) = uint (d ! i) * 257 - 32768
           \<and> (d ! i = 128 \<longrightarrow>
                sint (int16le (b' ! (4 * i)) (b' ! (4 * i + 1))) = 128
                \<and> sint (int16le (b' ! (4 * i + 2)) (b' ! (4 * i + 3))) = 128)"
    using fr by simp
  with rd l' show ?thesis by blast
qed

theorem mono8_read_witness:
  "Stereo16.mono (NewStereo16 () True True) \<and> eight (NewStereo16 () True True)
   \<and> (\<exists>b'. Stereo16_Read \<lparr>Read = \<lambda>n s. (([128, 0, 255], Some EOF), s),
                  Seek = \<lambda>offset whence s. ((offset, None), s), Close = \<lambda>s. (None, s)\<rparr>
                (replicate 16 0) (NewStereo16 () True True)
              = (Inr (12, Some EOF, b'), NewStereo16 () True True)
            \<and> length b' = 16
            \<and> sint (int16le (b' ! 0) (b' ! 1)) = 128 \<and> sint (int16le (b' ! 2) (b' ! 3)) = 128
            \<and> sint (int16le (b' ! 4) (b' ! 5)) = - 32768 \<and> sint (int16le (b' ! 6) (b' ! 7)) = - 32768
            \<and> sint (int16le (b' ! 8) (b' ! 9)) = 32767 \<and> sint (int16le (b' ! 10) (b' ! 11)) = 32767)"
proof -
  let ?S = "\<lparr>Read = \<lambda>n s. (([128, 0, 255], Some EOF), s),
                  Seek = \<lambda>offset whence s. ((offset, None), s), Close = \<lambda>s. (None, s)\<rparr>
            :: unit ReadSeekCloser"
  let ?s = "NewStereo16 () True True :: unit Stereo16"
  have m: "Stereo16.mono ?s" "eight ?s" by (simp_all add: NewStereo16_def)
  have rd: "Read ?S (length (replicate 16 (0 :: byte)) div 2 div 2) (source16 ?s)
      = (([128, 0, 255], Some EOF), ())" by simp
  from mono8_read [OF m rd] obtain b' where
    r: "Stereo16_Read ?S (replicate 16 0) ?s = (Inr (12, Some EOF, b'), ?s)"
    and l: "length b' = 16"
    and f: "\<forall>i<3. sint (int16le (b' ! (4 * i)) (b' ! (4 * i + 1))) = uint ([128, 0, 255 :: byte] ! i) * 257 - 32768
                 \<and> sint (int16le (b' ! (4 * i + 2)) (b' ! (4 * i + 3))) = uint ([128, 0, 255 :: byte] ! i) * 257 - 32768"
    by (auto simp: NewStereo16_def)
  have i: "(4 :: nat) * 0 = 0" "(0 :: nat) + 1 = 1" "(0 :: nat) + 2 = 2" "(0 :: nat) + 3 = 3"
    "(4 :: nat) * 1 = 4" "(4 :: nat) + 1 = 5" "(4 :: nat) + 2 = 6" "(4 :: nat) + 3 = 7"
    "(4 :: nat) * 2 = 8" "(8 :: nat) + 1 = 9" "(8 :: nat) + 2 = 10" "(8 :: nat) + 3 = 11"
    by simp_all
  have v: "uint ([128, 0, 255 :: byte] ! 0) * 257 - 32768 = 128"
    "uint ([128, 0, 255 :: byte] ! 1) * 257 - 32768 = - 32768"
    "uint ([128, 0, 255 :: byte] ! 2) * 257 - 32768 = 32767"
    by simp_all
  have "(0 :: nat) < 3" "(1 :: nat) < 3" "(2 :: nat) < 3" by simp_all
  from f [rule_format, OF this(1)] f [rule_format, OF this(2)] f [rule_format, OF this(3)]
  have "sint (int16le (b' ! 0) (b' ! 1)) = 128 \<and> sint (int16le (b' ! 2) (b' ! 3)) = 128
      \<and> sint (int16le (b' ! 4) (b' ! 5)) = - 32768 \<and> sint (int16le (b' ! 6) (b' ! 7)) = - 32768
      \<and> sint (int16le (b' ! 8) (b' ! 9)) = 32767 \<and> sint (int16le (b' ! 10) (b' ! 11)) = 32767"
    unfolding i v by blast
  with m r l show ?thesis by blast
qed

text \<open>
  C2 as stated fails for the byte 128: \<open>128 * 257 - 32768\<close> is 128, not 0, and \<open>Read\<close>
  stores the bytes \<open>0x80, 0x00\<close> on both channels.
\<close>

theorem mono8_128_counterexample:
  "Stereo16_Read \<lparr>Read = \<lambda>n s. (([128], None), s), Seek = \<lambda>offset whence s. ((offset, None), s),
       Close = \<lambda>s. (None, s)\<rparr> [0, 0, 0, 0] (NewStereo16 () True True)
     = (Inr (4, None, [128, 0, 128, 0]), NewStereo16 () True True)
   \<and> sint (int16le 128 0) = 128"
proof -
  have e: "expand8 128 = 128" by (simp add: expand8_def)
  have u: "(ucast (128 :: 16 word) :: byte) = 128" "(ucast (signed_drop_bit 8 (128 :: 16 word)) :: byte) = 0"
    by simp_all
  have l: "mono8_loop 0 1 [128] [0, 0, 0, 0] = Inr [128, 0, 128, 0]"
    by (subst mono8_loop.simps, simp add: e u put4_def Let_def, subst mono8_loop.simps, simp)
  have s: "sint (int16le 128 0) = 128" by (simp add: int16le_def)
  show ?thesis
    using l s by (simp add: Stereo16_Read_def NewStereo16_def Let_def)
qed

end
